theory Spec2Isabelle
  imports Main "HOL-Library.Char_ord" "HOL-Library.List_Lexorder" "HOL-Library.Sublist"
    "HOL-Library.Word"
begin

chapter \<open>The model of the script\<close>

section \<open>Text primitives of the Python runtime\<close>

text \<open>
  The script \<^verbatim>\<open>zscripts/publish.py\<close> works on Python \<^verbatim>\<open>str\<close> values. They are
  modelled as \<^typ>\<open>string\<close>, each \<^typ>\<open>char\<close> read as the code point of the same
  number (U+0000 to U+00FF). The character classes below are the ones of CPython
  restricted to that range: \<^verbatim>\<open>str.isspace\<close> (used by \<^verbatim>\<open>str.strip\<close> and by the
  regular-expression class \<^verbatim>\<open>\s\<close>), the white space of \<^verbatim>\<open>int\<close> (which leaves out the
  separators U+001C to U+001F), the class
  \<^verbatim>\<open>\d\<close>), the decimal digits, and \<^verbatim>\<open>str.lower\<close>. Python integers are unbounded and are
  modelled as \<^typ>\<open>int\<close>. The conversions between integers and decimal strings are the
  ones of CPython 3.11 with its default settings: \<^verbatim>\<open>int\<close> has its own white space, and
  both \<^verbatim>\<open>int\<close> and \<^verbatim>\<open>str\<close> raise \<^verbatim>\<open>ValueError\<close> beyond 4300 decimal digits.
\<close>

definition is_space :: "char \<Rightarrow> bool" where
  "is_space c \<longleftrightarrow> c \<in> set [CHR 0x09, CHR 0x0A, CHR 0x0B, CHR 0x0C, CHR 0x0D,
     CHR 0x1C, CHR 0x1D, CHR 0x1E, CHR 0x1F, CHR '' '', CHR 0x85, CHR 0xA0]"

definition is_digit :: "char \<Rightarrow> bool" where
  "is_digit c \<longleftrightarrow> c \<in> set ''0123456789''"

definition digit_val :: "char \<Rightarrow> nat" where
  "digit_val c = of_char c - 48"

definition digit_char :: "nat \<Rightarrow> char" where
  "digit_char n = ''0123456789'' ! n"

definition py_lower_char :: "char \<Rightarrow> char" where
  "py_lower_char c = (let n = (of_char c :: nat) in
     if (65 \<le> n \<and> n \<le> 90) \<or> (192 \<le> n \<and> n \<le> 222 \<and> n \<noteq> 215)
     then char_of (n + 32) else c)"

definition py_upper_char :: "char \<Rightarrow> char" where
  "py_upper_char c = (let n = (of_char c :: nat) in
     if (97 \<le> n \<and> n \<le> 122) \<or> (224 \<le> n \<and> n \<le> 254 \<and> n \<noteq> 247)
     then char_of (n - 32) else c)"

text \<open>\<^verbatim>\<open>s.lower()\<close> and \<^verbatim>\<open>s.strip()\<close>.\<close>

definition py_lower :: "string \<Rightarrow> string" where
  "py_lower s = map py_lower_char s"

definition py_strip :: "string \<Rightarrow> string" where
  "py_strip s = rev (dropWhile is_space (rev (dropWhile is_space s)))"

text \<open>\<^verbatim>\<open>s.split(sep)\<close> for a separator of one character: the loop keeps the piece read
  so far and closes it at every separator.\<close>

fun split_acc :: "char \<Rightarrow> string \<Rightarrow> string \<Rightarrow> string list" where
  "split_acc sep cur [] = [cur]"
| "split_acc sep cur (c # s) =
     (if c = sep then cur # split_acc sep [] s else split_acc sep (cur @ [c]) s)"

definition py_split :: "char \<Rightarrow> string \<Rightarrow> string list" where
  "py_split sep s = split_acc sep [] s"

text \<open>\<^verbatim>\<open>sep.join(parts)\<close>.\<close>

fun py_join :: "string \<Rightarrow> string list \<Rightarrow> string" where
  "py_join sep [] = []"
| "py_join sep [p] = p"
| "py_join sep (p # q # ps) = p @ sep @ py_join sep (q # ps)"

text \<open>\<^verbatim>\<open>repr(s)\<close> of a string, as it appears in the messages of the runtime: the quote is
  the double quote when the string has a single quote and no double quote, the single
  quote otherwise; the quote, the backslash and the characters that are not printable
  are escaped.\<close>

definition hex_digit :: "nat \<Rightarrow> char" where
  "hex_digit n = ''0123456789abcdef'' ! n"

definition is_printable :: "char \<Rightarrow> bool" where
  "is_printable c \<longleftrightarrow> (let n = (of_char c :: nat) in
     (32 \<le> n \<and> n < 127) \<or> (161 \<le> n \<and> n \<noteq> 173))"

definition repr_char :: "char \<Rightarrow> char \<Rightarrow> string" where
  "repr_char q c =
     (if c = q \<or> c = CHR 0x5C then [CHR 0x5C, c]
      else if c = CHR 0x09 then [CHR 0x5C, CHR ''t'']
      else if c = CHR 0x0A then [CHR 0x5C, CHR ''n'']
      else if c = CHR 0x0D then [CHR 0x5C, CHR ''r'']
      else if is_printable c then [c]
      else [CHR 0x5C, CHR ''x'', hex_digit (of_char c div 16), hex_digit (of_char c mod 16)])"

definition py_repr :: "string \<Rightarrow> string" where
  "py_repr s = (let q = (if CHR 0x27 \<in> set s \<and> CHR 0x22 \<notin> set s then CHR 0x22 else CHR 0x27)
     in [q] @ concat (map (repr_char q) s) @ [q])"

definition repr_list :: "string list \<Rightarrow> string" where
  "repr_list xs = ''['' @ py_join '', '' (map py_repr xs) @ '']''"

text \<open>The decimal digits of a natural number, without leading zero.\<close>

fun str_nat :: "nat \<Rightarrow> string" where
  "str_nat n = (if n < 10 then [digit_char n] else str_nat (n div 10) @ [digit_char (n mod 10)])"

declare str_nat.simps [simp del]

text \<open>The value of a string of decimal digits read after the digits that gave \<open>acc\<close>.\<close>

definition dec_val :: "nat \<Rightarrow> string \<Rightarrow> nat" where
  "dec_val acc xs = foldl (\<lambda>a c. 10 * a + digit_val c) acc xs"

section \<open>Exceptions\<close>

text \<open>The exceptions the script raises or lets through, with their arguments.
  \<open>CalledProcessError\<close> is raised by \<^verbatim>\<open>subprocess.run(..., check=True)\<close> and keeps the
  return code (a C \<^verbatim>\<open>int\<close>, read as a signed number) and the whole command; \<open>OSError\<close> stands for a failure of the operating
  system (a file that cannot be read, a program that cannot be started).\<close>

datatype error =
    ValueError string
  | RuntimeError string
  | CalledProcessError "32 word" "string list"
  | OSError string

section \<open>Conversions between integers and strings\<close>

text \<open>
  \<^verbatim>\<open>sys.int_info.default_max_str_digits\<close>: the interpreter refuses to convert between
  \<^verbatim>\<open>int\<close> and \<^verbatim>\<open>str\<close> when more decimal digits than this are involved. \<open>renders i\<close> says
  that \<open>i\<close> has no more digits than the limit.
\<close>

definition INT_MAX_STR_DIGITS :: nat where
  "INT_MAX_STR_DIGITS = 4300"

definition renders :: "int \<Rightarrow> bool" where
  "renders i \<longleftrightarrow> length (str_nat (nat \<bar>i\<bar>)) \<le> INT_MAX_STR_DIGITS"

definition digit_limit_str :: error where
  "digit_limit_str = ValueError ''Exceeds the limit (4300 digits) for integer string conversion; use sys.set_int_max_str_digits() to increase the limit''"

text \<open>\<^verbatim>\<open>str(n)\<close> for an integer, also as \<^verbatim>\<open>{n}\<close> in an f-string: the decimal digits, with a
  minus sign for a negative number; \<^verbatim>\<open>ValueError\<close> beyond the digit limit.\<close>

definition str_int :: "int \<Rightarrow> error + string" where
  "str_int i =
     (if \<not> renders i then Inl digit_limit_str
      else Inr (if i < 0 then CHR ''-'' # str_nat (nat (- i)) else str_nat (nat i)))"

text \<open>
  \<^verbatim>\<open>int(s)\<close> in base 10. Leading white space is skipped, one sign is allowed, then comes
  the run of digits and underscores, in which single underscores may stand between two
  digits; \<open>py_digits prev acc s\<close> reads that run, \<open>prev\<close> saying that the character before
  was a digit. A run with more digits than the limit is refused, and after the run only
  white space may follow. The white space of \<^verbatim>\<open>int\<close> is narrower than \<^verbatim>\<open>str.isspace\<close>: the
  separators U+001C to U+001F are not part of it. The message of an invalid literal shows
  at most 200 characters of the \<^verbatim>\<open>repr\<close> of the string.
\<close>

definition int_space :: "char \<Rightarrow> bool" where
  "int_space c \<longleftrightarrow> c \<in> set [CHR 0x09, CHR 0x0A, CHR 0x0B, CHR 0x0C, CHR 0x0D,
     CHR '' '', CHR 0x85, CHR 0xA0]"

fun py_digits :: "bool \<Rightarrow> nat \<Rightarrow> string \<Rightarrow> nat option" where
  "py_digits prev acc [] = (if prev then Some acc else None)"
| "py_digits prev acc (c # s) =
     (if is_digit c then py_digits True (10 * acc + digit_val c) s
      else if c = CHR ''_'' \<and> prev then py_digits False acc s
      else None)"

definition invalid_literal :: "string \<Rightarrow> error" where
  "invalid_literal s = ValueError (''invalid literal for int() with base 10: '' @ take 200 (py_repr s))"

definition digit_limit_int :: "nat \<Rightarrow> error" where
  "digit_limit_int n = ValueError (''Exceeds the limit (4300 digits) for integer string conversion: value has ''
     @ str_nat n @ '' digits; use sys.set_int_max_str_digits() to increase the limit'')"

definition in_run :: "char \<Rightarrow> bool" where
  "in_run c \<longleftrightarrow> is_digit c \<or> c = CHR ''_''"

definition py_int :: "string \<Rightarrow> error + int" where
  "py_int s =
     (let s1 = dropWhile int_space s;
          neg = (s1 \<noteq> [] \<and> hd s1 = CHR ''-'');
          s2 = (if s1 \<noteq> [] \<and> (hd s1 = CHR ''-'' \<or> hd s1 = CHR ''+'') then tl s1 else s1);
          run = takeWhile in_run s2;
          rest = dropWhile in_run s2
      in case py_digits False 0 run of
           None \<Rightarrow> Inl (invalid_literal s)
         | Some n \<Rightarrow>
             if INT_MAX_STR_DIGITS < length (filter is_digit run)
             then Inl (digit_limit_int (length (filter is_digit run)))
             else if \<not> list_all int_space rest then Inl (invalid_literal s)
             else Inr (if neg then - int n else int n))"

section \<open>SemVer\<close>

record SemVer =
  major :: int
  minor :: int
  patch :: int

definition parse :: "string \<Rightarrow> error + SemVer" where
  "parse s = (let parts = py_split CHR ''.'' (py_strip s) in
     if length parts \<noteq> 3 then Inl (ValueError (''Expected x.y.z, got '' @ [CHR 0x27] @ s @ [CHR 0x27]))
     else (case py_int (parts ! 0) of
         Inl e \<Rightarrow> Inl e
       | Inr a \<Rightarrow> (case py_int (parts ! 1) of
           Inl e \<Rightarrow> Inl e
         | Inr b \<Rightarrow> (case py_int (parts ! 2) of
             Inl e \<Rightarrow> Inl e
           | Inr c \<Rightarrow> Inr \<lparr>major = a, minor = b, patch = c\<rparr>))))"

definition bump :: "SemVer \<Rightarrow> string \<Rightarrow> error + SemVer" where
  "bump v kind0 = (let kind = py_strip (py_lower kind0) in
     if kind = ''major'' then Inr \<lparr>major = major v + 1, minor = 0, patch = 0\<rparr>
     else if kind = ''minor'' then Inr \<lparr>major = major v, minor = minor v + 1, patch = 0\<rparr>
     else if kind = ''patch'' then Inr \<lparr>major = major v, minor = minor v, patch = patch v + 1\<rparr>
     else Inl (ValueError ''Bump kind must be one of: major, minor, patch''))"

text \<open>\<^verbatim>\<open>__str__\<close>: the f-string converts the three components in turn; the first
  conversion that fails raises.\<close>

definition str_SemVer :: "SemVer \<Rightarrow> error + string" where
  "str_SemVer v =
     (case str_int (major v) of
        Inl e \<Rightarrow> Inl e
      | Inr a \<Rightarrow> (case str_int (minor v) of
          Inl e \<Rightarrow> Inl e
        | Inr b \<Rightarrow> (case str_int (patch v) of
            Inl e \<Rightarrow> Inl e
          | Inr c \<Rightarrow> Inr (a @ ''.'' @ b @ ''.'' @ c))))"

section \<open>Regular expressions\<close>

text \<open>
  The three patterns of the script are sequences of literal text and of greedy
  repetitions of a character class, some of them inside capture groups, compiled with
  \<^verbatim>\<open>re.IGNORECASE\<close>. A pattern is modelled as the list of its atoms, each with the
  number of the capture group that encloses it (0 outside every group). A literal is
  compared ignoring case. The matcher backtracks as \<^verbatim>\<open>re\<close> does: a repetition first
  takes the longest run of the class and gives characters back one at a time, never
  going below its minimum.
\<close>

datatype cls = Space | Digit | NotLt

fun in_cls :: "cls \<Rightarrow> char \<Rightarrow> bool" where
  "in_cls Space c = is_space c"
| "in_cls Digit c = is_digit c"
| "in_cls NotLt c = (c \<noteq> CHR ''<'')"

datatype atom = Lit string | Rep cls nat

type_synonym regex = "(atom \<times> nat) list"

definition lit_match :: "string \<Rightarrow> string \<Rightarrow> bool" where
  "lit_match l s \<longleftrightarrow> length l \<le> length s \<and> py_lower (take (length l) s) = py_lower l"

text \<open>\<open>try_rep f n m\<close> tries the continuation \<open>f\<close> with \<open>m\<close>, \<open>m - 1\<close>, ... down to
  \<open>n\<close> repetitions and keeps the first success.\<close>

fun try_rep :: "(nat \<Rightarrow> 'a option) \<Rightarrow> nat \<Rightarrow> nat \<Rightarrow> 'a option" where
  "try_rep f n 0 = (if n = 0 then f 0 else None)"
| "try_rep f n (Suc m) =
     (if Suc m < n then None
      else (case f (Suc m) of Some r \<Rightarrow> Some r | None \<Rightarrow> try_rep f n m))"

text \<open>\<open>match_here as s\<close> matches the atoms at the start of \<open>s\<close> and returns the piece
  of text each atom has matched.\<close>

fun match_here :: "atom list \<Rightarrow> string \<Rightarrow> string list option" where
  "match_here [] s = Some []"
| "match_here (Lit l # as) s =
     (if lit_match l s
      then map_option ((#) (take (length l) s)) (match_here as (drop (length l) s))
      else None)"
| "match_here (Rep k n # as) s =
     try_rep (\<lambda>m. map_option ((#) (take m s)) (match_here as (drop m s)))
       n (length (takeWhile (in_cls k) s))"

record rmatch =
  m_start :: nat
  m_pieces :: "string list"

definition m_end :: "rmatch \<Rightarrow> nat" where
  "m_end m = m_start m + length (concat (m_pieces m))"

text \<open>\<^verbatim>\<open>m.group(n)\<close>: the text matched by the atoms of group \<open>n\<close>.\<close>

definition m_group :: "regex \<Rightarrow> rmatch \<Rightarrow> nat \<Rightarrow> string" where
  "m_group r m n = concat (map snd (filter (\<lambda>(a, p). snd a = n) (zip r (m_pieces m))))"

text \<open>\<^verbatim>\<open>pattern.search(s)\<close>: the match at the leftmost position that has one.\<close>

fun search_from :: "regex \<Rightarrow> nat \<Rightarrow> string \<Rightarrow> rmatch option" where
  "search_from r i s =
     (case match_here (map fst r) s of
        Some ps \<Rightarrow> Some \<lparr>m_start = i, m_pieces = ps\<rparr>
      | None \<Rightarrow> (case s of [] \<Rightarrow> None | c # s' \<Rightarrow> search_from r (Suc i) s'))"

declare search_from.simps [simp del]

definition re_search :: "regex \<Rightarrow> string \<Rightarrow> rmatch option" where
  "re_search r s = search_from r 0 s"

text \<open>\<^verbatim>\<open>pattern.finditer(s)\<close>: the matches from left to right, each search starting where
  the match before ended (one character further after an empty match, which the patterns
  of the script never produce).\<close>

function finditer_from :: "regex \<Rightarrow> string \<Rightarrow> nat \<Rightarrow> rmatch list" where
  "finditer_from r s pos =
     (if length s < pos then []
      else (case match_here (map fst r) (drop pos s) of
          None \<Rightarrow> finditer_from r s (Suc pos)
        | Some ps \<Rightarrow> \<lparr>m_start = pos, m_pieces = ps\<rparr>
            # finditer_from r s (pos + max 1 (length (concat ps)))))"
  by pat_completeness auto
termination
  by (relation "measure (\<lambda>(r, s, pos). Suc (length s) - pos)") auto

declare finditer_from.simps [simp del]

definition finditer :: "regex \<Rightarrow> string \<Rightarrow> rmatch list" where
  "finditer r s = finditer_from r s 0"

text \<open>\<^verbatim>\<open>pattern.subn(repl, s)\<close>: the text between the matches is copied, each match is
  replaced by \<open>repl\<close> of it, and the number of matches is returned with the new text.\<close>

fun subn_build :: "(rmatch \<Rightarrow> string) \<Rightarrow> string \<Rightarrow> nat \<Rightarrow> rmatch list \<Rightarrow> string" where
  "subn_build repl s pos [] = drop pos s"
| "subn_build repl s pos (m # ms) =
     take (m_start m - pos) (drop pos s) @ repl m @ subn_build repl s (m_end m) ms"

definition subn :: "regex \<Rightarrow> (rmatch \<Rightarrow> string) \<Rightarrow> string \<Rightarrow> string \<times> nat" where
  "subn r repl s = (let ms = finditer r s in (subn_build repl s 0 ms, length ms))"

text \<open>The patterns: \<^verbatim>\<open>(<Version>\s*)(\d+\.\d+\.\d+)(\s*</Version>)\<close>,
  \<^verbatim>\<open><PackageId>\s*([^<]+)\s*</PackageId>\<close> and \<^verbatim>\<open><IsPackable>\s*([^<]+)\s*</IsPackable>\<close>.\<close>

definition VERSION_RE :: regex where
  "VERSION_RE =
     [(Lit ''<Version>'', 1), (Rep Space 0, 1),
      (Rep Digit 1, 2), (Lit ''.'', 2), (Rep Digit 1, 2), (Lit ''.'', 2), (Rep Digit 1, 2),
      (Rep Space 0, 3), (Lit ''</Version>'', 3)]"

definition PACKAGE_ID_RE :: regex where
  "PACKAGE_ID_RE =
     [(Lit ''<PackageId>'', 0), (Rep Space 0, 0), (Rep NotLt 1, 1), (Rep Space 0, 0),
      (Lit ''</PackageId>'', 0)]"

definition IS_PACKABLE_RE :: regex where
  "IS_PACKABLE_RE =
     [(Lit ''<IsPackable>'', 0), (Rep Space 0, 0), (Rep NotLt 1, 1), (Rep Space 0, 0),
      (Lit ''</IsPackable>'', 0)]"

definition extract_versions :: "string \<Rightarrow> string list" where
  "extract_versions csproj_text = map (\<lambda>m. m_group VERSION_RE m 2) (finditer VERSION_RE csproj_text)"

definition replace_version :: "string \<Rightarrow> string \<Rightarrow> string \<times> nat" where
  "replace_version csproj_text new_version =
     subn VERSION_RE (\<lambda>m. m_group VERSION_RE m 1 @ new_version @ m_group VERSION_RE m 3) csproj_text"

section \<open>Paths, the file system and the host\<close>

text \<open>
  A \<^verbatim>\<open>pathlib.Path\<close> is modelled as the list of its components; the paths the script
  walks are absolute (POSIX flavour), so the empty list is the root directory, whose
  parent is itself. What the script observes of the file system is a record: the names
  that \<^verbatim>\<open>glob\<close> yields in a directory for a pattern (in the order of the operating
  system), whether a path exists, the resolution of symbolic links, the decoded
  content of the text files, stored under the resolved path so that two paths of one
  file share their content, and, for a path that cannot be written, the error the
  operating system reports together with the content the failed write leaves in the
  file when it has touched it (nothing when the file could not even be opened).
\<close>

type_synonym path = "string list"

definition parent :: "path \<Rightarrow> path" where
  "parent p = butlast p"

definition path_name :: "path \<Rightarrow> string" where
  "path_name p = (if p = [] then [] else last p)"

definition str_path :: "path \<Rightarrow> string" where
  "str_path p = (if p = [] then ''/'' else concat (map (\<lambda>c. CHR ''/'' # c) p))"

text \<open>\<^verbatim>\<open>p.suffix\<close>: the name from its last dot, when that dot is neither the first nor
  the last character of the name.\<close>

definition rfind_dot :: "string \<Rightarrow> nat option" where
  "rfind_dot name = (case filter (\<lambda>i. name ! i = CHR ''.'') (rev [0 ..< length name]) of
       [] \<Rightarrow> None | i # _ \<Rightarrow> Some i)"

definition path_suffix :: "path \<Rightarrow> string" where
  "path_suffix p = (let name = path_name p in
     case rfind_dot name of
       None \<Rightarrow> []
     | Some i \<Rightarrow> if 0 < i \<and> i < length name - 1 then drop i name else [])"

definition endswith :: "string \<Rightarrow> string \<Rightarrow> bool" where
  "endswith s suf \<longleftrightarrow> length suf \<le> length s \<and> drop (length s - length suf) s = suf"

text \<open>\<^verbatim>\<open>str(p.relative_to(root))\<close>; \<^verbatim>\<open>relative_to\<close> raises \<^verbatim>\<open>ValueError\<close> when \<open>p\<close> is not
  below \<open>root\<close>.\<close>

definition relative_to :: "path \<Rightarrow> path \<Rightarrow> error + string" where
  "relative_to p root =
     (if take (length root) p = root
      then Inr (if drop (length root) p = [] then ''.'' else py_join ''/'' (drop (length root) p))
      else Inl (ValueError (py_repr (str_path p) @ '' is not in the subpath of '' @ py_repr (str_path root))))"

record filesys =
  fs_glob :: "path \<Rightarrow> string \<Rightarrow> string list"
  fs_exists :: "path \<Rightarrow> bool"
  fs_resolve :: "path \<Rightarrow> path"
  fs_text :: "path \<Rightarrow> string option"
  fs_write_error :: "path \<Rightarrow> (string \<times> string option) option"

definition glob :: "filesys \<Rightarrow> path \<Rightarrow> string \<Rightarrow> path list" where
  "glob fs d pat = map (\<lambda>n. d @ [n]) (fs_glob fs d pat)"

text \<open>\<^verbatim>\<open>p.read_text(encoding="utf-8")\<close> opens the file with universal newlines: every
  \<^verbatim>\<open>\r\n\<close> and every remaining \<^verbatim>\<open>\r\<close> is read as \<^verbatim>\<open>\n\<close>. A file that cannot be read
  raises.\<close>

fun universal_newlines :: "string \<Rightarrow> string" where
  "universal_newlines [] = []"
| "universal_newlines [c] = (if c = CHR 0x0D then [CHR 0x0A] else [c])"
| "universal_newlines (c # d # s) =
     (if c = CHR 0x0D \<and> d = CHR 0x0A then CHR 0x0A # universal_newlines s
      else if c = CHR 0x0D then CHR 0x0A # universal_newlines (d # s)
      else c # universal_newlines (d # s))"

definition read_text :: "filesys \<Rightarrow> path \<Rightarrow> error + string" where
  "read_text fs p = (case fs_text fs (fs_resolve fs p) of
       None \<Rightarrow> Inl (OSError (str_path p))
     | Some raw \<Rightarrow> Inr (universal_newlines raw))"

text \<open>
  The host is what the script does not decide: the two directories the search for the
  root starts from, what an external program does (its return code, a C \<^verbatim>\<open>int\<close>, or the
  failure to start it, and the file system it leaves), what \<^verbatim>\<open>shutil.rmtree\<close> and \<^verbatim>\<open>mkdir\<close> do,
  and how the runtime names a signal in the message of \<^verbatim>\<open>CalledProcessError\<close>.
\<close>

datatype proc_result = Exited "32 word" | LaunchFailed string

record host =
  host_cwd :: path
  host_script_dir :: path
  host_subprocess :: "string list \<Rightarrow> path \<Rightarrow> filesys \<Rightarrow> proc_result \<times> filesys"
  host_rmtree :: "path \<Rightarrow> filesys \<Rightarrow> string option \<times> filesys"
  host_mkdir :: "path \<Rightarrow> filesys \<Rightarrow> string option \<times> filesys"
  host_signal_repr :: "int \<Rightarrow> string"

text \<open>
  The state of a run: the file system, and the trace of everything the script has done
  so far, in order: the lines written to standard output and to standard error, the
  external commands started (with their working directory), the files written and the
  directories removed and created.
\<close>

datatype event =
    Print string
  | EPrint string
  | Exec "string list" path
  | WriteText path string
  | Rmtree path
  | Mkdir path

record state =
  disk :: filesys
  trace :: "event list"

definition emit :: "event \<Rightarrow> state \<Rightarrow> state" where
  "emit e s = s\<lparr>trace := trace s @ [e]\<rparr>"

text \<open>Sequencing of two statements, the first of which may raise, and the \<^verbatim>\<open>for\<close> loop
  whose body may raise.\<close>

definition then_do ::
  "(state \<Rightarrow> (error + 'a) \<times> state) \<Rightarrow> ('a \<Rightarrow> state \<Rightarrow> (error + 'b) \<times> state) \<Rightarrow> state \<Rightarrow> (error + 'b) \<times> state" where
  "then_do m f s = (case m s of (Inl e, s') \<Rightarrow> (Inl e, s') | (Inr x, s') \<Rightarrow> f x s')"

fun for_each :: "('a \<Rightarrow> state \<Rightarrow> (error + unit) \<times> state) \<Rightarrow> 'a list \<Rightarrow> state \<Rightarrow> (error + unit) \<times> state" where
  "for_each body [] s = (Inr (), s)"
| "for_each body (x # xs) s = then_do (body x) (\<lambda>_. for_each body xs) s"

text \<open>\<^verbatim>\<open>p.write_text(text, encoding="utf-8", newline="\n")\<close>: when the write succeeds the
  file holds the text as it is (\<open>stored\<close>); when it fails \<^verbatim>\<open>OSError\<close> is raised and the
  file is as the failure has left it.\<close>

definition stored :: "path \<Rightarrow> string \<Rightarrow> state \<Rightarrow> state" where
  "stored p text s =
     emit (WriteText p text)
       (s\<lparr>disk := (disk s)\<lparr>fs_text := (fs_text (disk s))(fs_resolve (disk s) p \<mapsto> text)\<rparr>\<rparr>)"

definition write_text :: "path \<Rightarrow> string \<Rightarrow> state \<Rightarrow> (error + unit) \<times> state" where
  "write_text p text s =
     (case fs_write_error (disk s) p of
        None \<Rightarrow> (Inr (), stored p text s)
      | Some (msg, left) \<Rightarrow>
          (Inl (OSError msg),
           (case left of
              None \<Rightarrow> s
            | Some t \<Rightarrow> s\<lparr>disk := (disk s)\<lparr>fs_text := (fs_text (disk s))(fs_resolve (disk s) p \<mapsto> t)\<rparr>\<rparr>)))"

section \<open>The script\<close>

definition NUGET_SOURCE :: string where
  "NUGET_SOURCE = ''https://api.nuget.org/v3/index.json''"

definition PROJECT_DIRS :: "path list" where
  "PROJECT_DIRS = [[''Source'', ''Analyzers''], [''Source'', ''CodeAnalysis''], [''Source'', ''CodeFix'']]"

definition ARTIFACTS_DIR :: path where
  "ARTIFACTS_DIR = [''artifacts'', ''nuget'', ''_publish'']"

definition redact :: "string set \<Rightarrow> string \<Rightarrow> string" where
  "redact redacts part = (if part \<in> redacts \<and> part \<noteq> [] then ''****'' else part)"

definition run :: "host \<Rightarrow> string list \<Rightarrow> path \<Rightarrow> string list \<Rightarrow> state \<Rightarrow> (error + unit) \<times> state" where
  "run h cmd cwd redact_values s =
     (let s1 = emit (Print (''> '' @ py_join '' '' (map (redact (set redact_values)) cmd))) s;
          s2 = emit (Exec cmd cwd) s1;
          (res, fs') = host_subprocess h cmd cwd (disk s2);
          s3 = s2\<lparr>disk := fs'\<rparr>
      in case res of
           LaunchFailed msg \<Rightarrow> (Inl (OSError msg), s3)
         | Exited rc \<Rightarrow> if rc \<noteq> 0 then (Inl (CalledProcessError rc cmd), s3) else (Inr (), s3))"

lemma parent_shorter: "parent p \<noteq> p \<Longrightarrow> length (parent p) < length p"
  by (cases p) (auto simp: parent_def)

function walk_up :: "filesys \<Rightarrow> path set \<Rightarrow> path \<Rightarrow> path option \<times> path set" where
  "walk_up fs visited p =
     (if p \<in> visited then (None, visited)
      else if glob fs p ''*.sln'' \<noteq> [] then (Some p, insert p visited)
      else if parent p = p then (None, insert p visited)
      else walk_up fs (insert p visited) (parent p))"
  by pat_completeness auto
termination
  by (relation "measure (\<lambda>(fs, visited, p). length p)") (auto intro: parent_shorter)

declare walk_up.simps [simp del]

fun walk_starts :: "filesys \<Rightarrow> path set \<Rightarrow> path list \<Rightarrow> error + path" where
  "walk_starts fs visited [] =
     Inl (RuntimeError ''Could not find repo root (a directory containing a *.sln) from cwd or script location.'')"
| "walk_starts fs visited (start # starts) =
     (case walk_up fs visited start of
        (Some p, _) \<Rightarrow> Inr p
      | (None, visited') \<Rightarrow> walk_starts fs visited' starts)"

definition find_repo_root :: "host \<Rightarrow> filesys \<Rightarrow> error + path" where
  "find_repo_root h fs = walk_starts fs {} [host_cwd h, host_script_dir h]"

definition find_solution_file :: "path \<Rightarrow> state \<Rightarrow> (error + path) \<times> state" where
  "find_solution_file root s =
     (let slns = sort (glob (disk s) root ''*.sln'') in
      if slns = [] then (Inl (RuntimeError (''No .sln found in repo root: '' @ str_path root)), s)
      else if length slns > 1
        then (Inr (hd slns),
              emit (EPrint (''Warning: multiple .sln files found in '' @ str_path root
                            @ ''. Using: '' @ path_name (hd slns))) s)
      else (Inr (hd slns), s))"

fun collect_csproj :: "path \<Rightarrow> path list \<Rightarrow> path list \<Rightarrow> state \<Rightarrow> path list \<times> state" where
  "collect_csproj root [] files s = (files, s)"
| "collect_csproj root (rel_dir # dirs) files s =
     (if \<not> fs_exists (disk s) (root @ rel_dir)
      then collect_csproj root dirs files
             (emit (EPrint (''Warning: directory missing: '' @ str_path (root @ rel_dir))) s)
      else collect_csproj root dirs (files @ sort (glob (disk s) (root @ rel_dir) ''*.csproj'')) s)"

fun dedupe :: "filesys \<Rightarrow> path list \<Rightarrow> path list \<Rightarrow> path set \<Rightarrow> path list" where
  "dedupe fs [] uniq seen = uniq"
| "dedupe fs (f # files) uniq seen =
     (if fs_resolve fs f \<notin> seen
      then dedupe fs files (uniq @ [f]) (insert (fs_resolve fs f) seen)
      else dedupe fs files uniq seen)"

definition find_csproj_files :: "path \<Rightarrow> state \<Rightarrow> path list \<times> state" where
  "find_csproj_files root s =
     (case collect_csproj root PROJECT_DIRS [] s of
        (files, s') \<Rightarrow> (dedupe (disk s') files [] {}, s'))"

fun first_version :: "filesys \<Rightarrow> path list \<Rightarrow> error + SemVer" where
  "first_version fs [] =
     Inl (RuntimeError ''No <Version>x.y.z</Version> found in any targeted .csproj files.'')"
| "first_version fs (p # ps) =
     (case read_text fs p of
        Inl e \<Rightarrow> Inl e
      | Inr text \<Rightarrow> (case extract_versions text of
            [] \<Rightarrow> first_version fs ps
          | v # _ \<Rightarrow> parse v))"

definition choose_base_version :: "filesys \<Rightarrow> path list \<Rightarrow> error + SemVer" where
  "choose_base_version fs projects = first_version fs (sort_key str_path projects)"

text \<open>The loop of \<open>bump_versions_in_projects\<close> over the manifests; \<open>changed\<close> is the list
  of the files written so far.\<close>

fun rewrite_projects :: "path \<Rightarrow> string \<Rightarrow> path list \<Rightarrow> path list \<Rightarrow> state \<Rightarrow> (error + path list) \<times> state" where
  "rewrite_projects root newv_str [] changed s = (Inr changed, s)"
| "rewrite_projects root newv_str (p # ps) changed s =
     (case read_text (disk s) p of
        Inl e \<Rightarrow> (Inl e, s)
      | Inr old_text \<Rightarrow>
          if extract_versions old_text = []
          then (case relative_to p root of
                  Inl e \<Rightarrow> (Inl e, s)
                | Inr rel \<Rightarrow> (Inl (RuntimeError (''Missing <Version> in: '' @ rel)), s))
          else (case replace_version old_text newv_str of
            (new_text, count) \<Rightarrow>
              if count \<le> 0
              then (case relative_to p root of
                      Inl e \<Rightarrow> (Inl e, s)
                    | Inr rel \<Rightarrow> (Inl (RuntimeError (''Failed to replace <Version> in: '' @ rel)), s))
              else if new_text \<noteq> old_text
              then (case write_text p new_text s of
                      (Inl e, s') \<Rightarrow> (Inl e, s')
                    | (Inr _, s') \<Rightarrow>
                        (case relative_to p root of
                           Inl e \<Rightarrow> (Inl e, s')
                         | Inr rel \<Rightarrow>
                             (case str_int (int count) of
                                Inl e \<Rightarrow> (Inl e, s')
                              | Inr count_str \<Rightarrow>
                                  rewrite_projects root newv_str ps (changed @ [p])
                                    (emit (Print (''Updated: '' @ rel @ '' (replacements: '' @ count_str @ '')'')) s'))))
              else (case relative_to p root of
                      Inl e \<Rightarrow> (Inl e, s)
                    | Inr rel \<Rightarrow>
                        rewrite_projects root newv_str ps changed
                          (emit (Print (''Unchanged: '' @ rel)) s))))"

definition bump_versions_in_projects ::
  "path \<Rightarrow> string \<Rightarrow> state \<Rightarrow> (error + SemVer \<times> SemVer \<times> path list) \<times> state" where
  "bump_versions_in_projects root bump_kind s =
     (case find_csproj_files root s of
        (csprojs, s1) \<Rightarrow>
          if csprojs = []
          then (Inl (RuntimeError ''No .csproj files found in Source/Analyzers, Source/CodeAnalysis, Source/CodeFix.''), s1)
          else (case choose_base_version (disk s1) csprojs of
              Inl e \<Rightarrow> (Inl e, s1)
            | Inr base \<Rightarrow> (case bump base bump_kind of
                Inl e \<Rightarrow> (Inl e, s1)
              | Inr newv \<Rightarrow> (case str_SemVer newv of
                  Inl e \<Rightarrow> (Inl e, s1)
                | Inr newv_str \<Rightarrow> (case str_SemVer base of
                    Inl e \<Rightarrow> (Inl e, s1)
                  | Inr base_str \<Rightarrow>
                      (case rewrite_projects root newv_str csprojs []
                              (emit (Print (''Version bump: '' @ base_str @ '' -> '' @ newv_str)) s1) of
                         (Inl e, s2) \<Rightarrow> (Inl e, s2)
                       | (Inr changed, s2) \<Rightarrow> (Inr (base, newv, changed), s2)))))))"

definition is_packable_csproj :: "filesys \<Rightarrow> path \<Rightarrow> error + bool" where
  "is_packable_csproj fs csproj_path =
     (case read_text fs csproj_path of
        Inl e \<Rightarrow> Inl e
      | Inr text \<Rightarrow>
          if re_search PACKAGE_ID_RE text = None then Inr False
          else (case re_search IS_PACKABLE_RE text of
              None \<Rightarrow> Inr True
            | Some m \<Rightarrow>
                if py_lower (py_strip (m_group IS_PACKABLE_RE m 1)) = ''false'' then Inr False
                else Inr True))"

definition clean_publish_output_dir :: "host \<Rightarrow> path \<Rightarrow> state \<Rightarrow> (error + path) \<times> state" where
  "clean_publish_output_dir h root s =
     (let out_dir = root @ ARTIFACTS_DIR;
          (r1, s1) = (if fs_exists (disk s) out_dir
             then (case host_rmtree h out_dir (disk s) of
                     (r, fs') \<Rightarrow> (r, emit (Rmtree out_dir) (s\<lparr>disk := fs'\<rparr>)))
             else (None, s))
      in case r1 of
           Some msg \<Rightarrow> (Inl (OSError msg), s1)
         | None \<Rightarrow> (case host_mkdir h out_dir (disk s1) of
             (r2, fs'') \<Rightarrow>
               (case r2 of Some msg \<Rightarrow> Inl (OSError msg) | None \<Rightarrow> Inr out_dir,
                emit (Mkdir out_dir) (s1\<lparr>disk := fs''\<rparr>))))"

definition build_solution :: "host \<Rightarrow> path \<Rightarrow> path \<Rightarrow> state \<Rightarrow> (error + unit) \<times> state" where
  "build_solution h root sln = run h [''dotnet'', ''build'', str_path sln, ''-c'', ''Release''] root []"

fun filter_packable :: "filesys \<Rightarrow> path list \<Rightarrow> error + path list" where
  "filter_packable fs [] = Inr []"
| "filter_packable fs (p # ps) =
     (case is_packable_csproj fs p of
        Inl e \<Rightarrow> Inl e
      | Inr b \<Rightarrow> (case filter_packable fs ps of
            Inl e \<Rightarrow> Inl e
          | Inr rest \<Rightarrow> Inr (if b then p # rest else rest)))"

definition print_rel :: "path \<Rightarrow> path \<Rightarrow> state \<Rightarrow> (error + unit) \<times> state" where
  "print_rel root p s = (case relative_to p root of
       Inl e \<Rightarrow> (Inl e, s)
     | Inr rel \<Rightarrow> (Inr (), emit (Print (''  - '' @ rel)) s))"

definition pack_cmd :: "path \<Rightarrow> path \<Rightarrow> string list" where
  "pack_cmd out_dir proj = [''dotnet'', ''pack'', str_path proj, ''-c'', ''Release'', ''-o'', str_path out_dir]"

definition pack_projects :: "host \<Rightarrow> path \<Rightarrow> path \<Rightarrow> state \<Rightarrow> (error + path list) \<times> state" where
  "pack_projects h root out_dir s =
     (case find_csproj_files root s of
        (csprojs, s1) \<Rightarrow>
          (case filter_packable (disk s1) csprojs of
             Inl e \<Rightarrow> (Inl e, s1)
           | Inr packable \<Rightarrow>
               if packable = []
               then (Inl (RuntimeError ''No packable projects found (no .csproj with <PackageId> in the target folders).''), s1)
               else then_do (for_each (print_rel root) packable)
                      (\<lambda>_. then_do (for_each (\<lambda>proj. run h (pack_cmd out_dir proj) root []) packable)
                        (\<lambda>_ s2.
                           let produced = sort (glob (disk s2) out_dir ''*.nupkg'' @ glob (disk s2) out_dir ''*.snupkg'')
                           in if produced = []
                              then (Inl (RuntimeError (''No packages produced in '' @ str_path out_dir)), s2)
                              else (Inr produced, s2)))
                      (emit (Print ''Packable projects:'') s1)))"

definition push_cmd :: "string \<Rightarrow> path \<Rightarrow> string list" where
  "push_cmd api_key pkg =
     [''dotnet'', ''nuget'', ''push'', str_path pkg, ''--api-key'', api_key,
      ''--source'', NUGET_SOURCE, ''--skip-duplicate'']"

definition push_order :: "path list \<Rightarrow> path list" where
  "push_order packages =
     sort (filter (\<lambda>p. path_suffix p = ''.nupkg'' \<and> \<not> endswith (path_name p) ''.symbols.nupkg'') packages)
     @ sort (filter (\<lambda>p. path_suffix p = ''.snupkg'') packages)"

definition push_packages :: "host \<Rightarrow> path \<Rightarrow> path list \<Rightarrow> string \<Rightarrow> state \<Rightarrow> (error + unit) \<times> state" where
  "push_packages h root packages api_key =
     for_each (\<lambda>pkg s. run h (push_cmd api_key pkg) root [api_key]
                          (emit (Print (''Pushing: '' @ path_name pkg)) s))
       (push_order packages)"

fun relative_all :: "path \<Rightarrow> path list \<Rightarrow> error + string list" where
  "relative_all root [] = Inr []"
| "relative_all root (p # ps) =
     (case relative_to p root of
        Inl e \<Rightarrow> Inl e
      | Inr rel \<Rightarrow> (case relative_all root ps of Inl e \<Rightarrow> Inl e | Inr rels \<Rightarrow> Inr (rel # rels)))"

definition py_upper :: "string \<Rightarrow> string" where
  "py_upper s = map py_upper_char s"

definition git_commit_version_bump :: "host \<Rightarrow> path \<Rightarrow> path list \<Rightarrow> string \<Rightarrow> state \<Rightarrow> (error + unit) \<times> state" where
  "git_commit_version_bump h root changed_files bump_kind s =
     (if \<not> fs_exists (disk s) (root @ [''.git''])
      then (Inl (RuntimeError ''Expected a git repository (no .git directory found). Refusing to commit.''), s)
      else if changed_files = []
      then (Inr (), emit (Print ''No csproj files changed; skipping git commit.'') s)
      else (case relative_all root changed_files of
          Inl e \<Rightarrow> (Inl e, s)
        | Inr rel_paths \<Rightarrow>
            then_do (run h ([''git'', ''add'', ''--''] @ rel_paths) root [])
              (\<lambda>_. run h [''git'', ''commit'', ''-m'', ''['' @ py_upper bump_kind @ ''] Analyzer Upgrade''] root [])
              s))"

definition bump_step :: "path \<Rightarrow> string \<Rightarrow> state \<Rightarrow> (error + path list) \<times> state" where
  "bump_step root mode s =
     (if mode \<noteq> ''publish-only''
      then (case bump_versions_in_projects root mode s of
          (Inl e, s') \<Rightarrow> (Inl e, s')
        | (Inr (_, newv, changed), s') \<Rightarrow>
            (case str_SemVer newv of
               Inl e \<Rightarrow> (Inl e, s')
             | Inr newv_str \<Rightarrow> (Inr changed, emit (Print (''New version set to: '' @ newv_str)) s')))
      else (Inr [], emit (Print ''publish-only: leaving versions unchanged; no git operations will be performed.'') s))"

definition commit_step :: "host \<Rightarrow> path \<Rightarrow> path list \<Rightarrow> string \<Rightarrow> state \<Rightarrow> (error + unit) \<times> state" where
  "commit_step h root changed mode s =
     (if mode \<noteq> ''publish-only'' then git_commit_version_bump h root changed mode s else (Inr (), s))"

definition print_settings :: "path \<Rightarrow> path \<Rightarrow> string \<Rightarrow> state \<Rightarrow> (error + unit) \<times> state" where
  "print_settings root sln mode s =
     (Inr (), emit (Print (''Mode:      '' @ mode))
                (emit (Print (''Solution:  '' @ path_name sln))
                   (emit (Print (''Repo root: '' @ str_path root)) s)))"

definition usage :: "string \<Rightarrow> state \<Rightarrow> (error + int) \<times> state" where
  "usage line s = (Inr 2, emit (EPrint line) (emit (EPrint ''Refusing to run.'') s))"

definition main :: "host \<Rightarrow> string list \<Rightarrow> state \<Rightarrow> (error + int) \<times> state" where
  "main h argv s =
     (if length argv \<noteq> 3
      then usage ''Usage: python zscripts/publish.py <major|minor|patch|publish-only> <api_key>'' s
      else let mode = py_strip (py_lower (argv ! 1)); api_key = py_strip (argv ! 2) in
        if mode \<notin> set [''major'', ''minor'', ''patch'', ''publish-only'']
        then usage ''First argument must be one of: major, minor, patch, publish-only'' s
        else if api_key = []
        then (Inr 2, emit (EPrint ''Refusing to run: api_key is empty.'') s)
        else (case find_repo_root h (disk s) of
            Inl e \<Rightarrow> (Inl e, s)
          | Inr root \<Rightarrow>
              then_do (find_solution_file root) (\<lambda>sln.
              then_do (print_settings root sln mode) (\<lambda>_.
              then_do (bump_step root mode) (\<lambda>changed.
              then_do (build_solution h root sln) (\<lambda>_.
              then_do (clean_publish_output_dir h root) (\<lambda>out_dir.
              then_do (pack_projects h root out_dir) (\<lambda>packages.
              then_do (push_packages h root packages api_key) (\<lambda>_.
              then_do (commit_step h root changed mode) (\<lambda>_ s.
                (Inr 0, emit (Print ''Done.'') s))))))))) s))"

text \<open>
  The block under \<^verbatim>\<open>if __name__ == "__main__"\<close>. \<^verbatim>\<open>SystemExit\<close> is not an \<^verbatim>\<open>Exception\<close>
  and ends the process with the status \<open>main\<close> returned. Any other exception is
  reported by the handler and raised again; the interpreter then writes the traceback to
  standard error, whose last line is the name of the exception and its \<^verbatim>\<open>str\<close>, and
  ends the process with status 1. The lines of the traceback that quote the source are
  the same in every run and are left out.
\<close>

text \<open>A return code is a C \<^verbatim>\<open>int\<close>: its decimal form has at most ten digits, far below the
  digit limit, so formatting it never raises.\<close>

definition str_returncode :: "32 word \<Rightarrow> string" where
  "str_returncode rc =
     (if sint rc < 0 then CHR ''-'' # str_nat (nat (- sint rc)) else str_nat (nat (sint rc)))"

definition str_error :: "host \<Rightarrow> error \<Rightarrow> string" where
  "str_error h e = (case e of
       ValueError msg \<Rightarrow> msg
     | RuntimeError msg \<Rightarrow> msg
     | OSError msg \<Rightarrow> msg
     | CalledProcessError rc cmd \<Rightarrow>
         if sint rc < 0
         then ''Command '' @ [CHR 0x27] @ repr_list cmd @ [CHR 0x27] @ '' died with '' @ host_signal_repr h (- sint rc) @ ''.''
         else ''Command '' @ [CHR 0x27] @ repr_list cmd @ [CHR 0x27] @ '' returned non-zero exit status '' @ str_returncode rc @ ''.'')"

definition error_name :: "error \<Rightarrow> string" where
  "error_name e = (case e of
       ValueError _ \<Rightarrow> ''ValueError''
     | RuntimeError _ \<Rightarrow> ''RuntimeError''
     | OSError _ \<Rightarrow> ''OSError''
     | CalledProcessError _ _ \<Rightarrow> ''subprocess.CalledProcessError'')"

definition traceback_line :: "host \<Rightarrow> error \<Rightarrow> string" where
  "traceback_line h e =
     (if str_error h e = [] then error_name e else error_name e @ '': '' @ str_error h e)"

definition script :: "host \<Rightarrow> string list \<Rightarrow> state \<Rightarrow> int \<times> state" where
  "script h argv s =
     (case main h argv s of
        (Inr status, s') \<Rightarrow> (status, s')
      | (Inl (CalledProcessError rc cmd), s') \<Rightarrow>
          (1, emit (EPrint (traceback_line h (CalledProcessError rc cmd)))
                (emit (EPrint (''Command failed with exit code '' @ str_returncode rc @ ''.'')) s'))
      | (Inl e, s') \<Rightarrow>
          (1, emit (EPrint (traceback_line h e))
                (emit (EPrint (''Error: '' @ str_error h e)) s')))"

section \<open>Notions of the specification\<close>

text \<open>The ancestor chain of a directory, following parent links up to the root; a
  directory qualifies as repository root when it holds a solution file.\<close>

function ancestors :: "path \<Rightarrow> path list" where
  "ancestors p = p # (if parent p = p then [] else ancestors (parent p))"
  by pat_completeness auto
termination
  by (relation "measure length") (auto intro: parent_shorter)

declare ancestors.simps [simp del]

definition has_sln :: "filesys \<Rightarrow> path \<Rightarrow> bool" where
  "has_sln fs p \<longleftrightarrow> glob fs p ''*.sln'' \<noteq> []"

text \<open>Invariants of the walk: every visited directory holds no solution file and its
  parent is visited too, or is the directory the walk is at.\<close>

definition walking :: "filesys \<Rightarrow> path set \<Rightarrow> path \<Rightarrow> bool" where
  "walking fs V p \<longleftrightarrow> (\<forall>q \<in> V. \<not> has_sln fs q \<and> (parent q \<in> V \<or> parent q = p))"

definition closed :: "filesys \<Rightarrow> path set \<Rightarrow> bool" where
  "closed fs V \<longleftrightarrow> (\<forall>q \<in> V. \<not> has_sln fs q \<and> parent q \<in> V)"

definition root_not_found :: error where
  "root_not_found = RuntimeError ''Could not find repo root (a directory containing a *.sln) from cwd or script location.''"

text \<open>The invariant of the data model: the three components are non-negative.\<close>

definition non_negative :: "SemVer \<Rightarrow> bool" where
  "non_negative v \<longleftrightarrow> 0 \<le> major v \<and> 0 \<le> minor v \<and> 0 \<le> patch v"

text \<open>What an atom of a pattern can match: a literal matches a text equal to it up to
  case, a repetition matches at least its minimum of characters of its class.\<close>

fun piece_ok :: "atom \<Rightarrow> string \<Rightarrow> bool" where
  "piece_ok (Lit l) t = (py_lower t = py_lower l)"
| "piece_ok (Rep k n) t = (n \<le> length t \<and> list_all (in_cls k) t)"

definition no_version_found :: error where
  "no_version_found = RuntimeError ''No <Version>x.y.z</Version> found in any targeted .csproj files.''"

text \<open>A manifest that can be read and holds no version declaration.\<close>

definition lacks_version :: "filesys \<Rightarrow> path \<Rightarrow> bool" where
  "lacks_version fs p \<longleftrightarrow> (case read_text fs p of Inl e \<Rightarrow> False | Inr t \<Rightarrow> extract_versions t = [])"

section \<open>A sample repository\<close>

text \<open>
  A small repository on which the theorems are instantiated: the root \<^verbatim>\<open>/repo\<close> holds
  \<^verbatim>\<open>App.sln\<close> and a \<^verbatim>\<open>.git\<close> directory, \<^verbatim>\<open>Source/Analyzers\<close> holds \<^verbatim>\<open>A.csproj\<close> and
  \<^verbatim>\<open>B.csproj\<close> (listed by the operating system in the other order), \<^verbatim>\<open>Source/CodeFix\<close>
  holds \<^verbatim>\<open>F.csproj\<close>, and \<^verbatim>\<open>Source/CodeAnalysis\<close> is missing. The contents of the three
  manifests are parameters, and every file can be written. On the sample host every tool
  succeeds, and packing leaves
  one package in the output directory.
\<close>

definition sample_A :: path where "sample_A = [''repo'', ''Source'', ''Analyzers'', ''A.csproj'']"
definition sample_B :: path where "sample_B = [''repo'', ''Source'', ''Analyzers'', ''B.csproj'']"
definition sample_F :: path where "sample_F = [''repo'', ''Source'', ''CodeFix'', ''F.csproj'']"

definition sample_fs :: "string \<Rightarrow> string \<Rightarrow> string \<Rightarrow> filesys" where
  "sample_fs a b f =
     \<lparr>fs_glob = (\<lambda>d pat.
        if d = [''repo''] \<and> pat = ''*.sln'' then [''App.sln'']
        else if d = [''repo'', ''Source'', ''Analyzers''] \<and> pat = ''*.csproj'' then [''B.csproj'', ''A.csproj'']
        else if d = [''repo'', ''Source'', ''CodeFix''] \<and> pat = ''*.csproj'' then [''F.csproj'']
        else []),
      fs_exists = (\<lambda>p. p \<noteq> [''repo'', ''Source'', ''CodeAnalysis'']),
      fs_resolve = (\<lambda>p. p),
      fs_text = [sample_A \<mapsto> a, sample_B \<mapsto> b, sample_F \<mapsto> f],
      fs_write_error = (\<lambda>p. None)\<rparr>"

definition sample_pack :: "string list \<Rightarrow> filesys \<Rightarrow> filesys" where
  "sample_pack cmd fs =
     (if take 2 cmd = [''dotnet'', ''pack'']
      then fs\<lparr>fs_glob := (\<lambda>d pat.
             if d = [''repo'', ''artifacts'', ''nuget'', ''_publish''] \<and> pat = ''*.nupkg''
             then [''P.1.0.0.nupkg''] else fs_glob fs d pat)\<rparr>
      else fs)"

definition sample_host :: host where
  "sample_host =
     \<lparr>host_cwd = [''repo'', ''work''],
      host_script_dir = [''repo'', ''zscripts''],
      host_subprocess = (\<lambda>cmd cwd fs. (Exited 0, sample_pack cmd fs)),
      host_rmtree = (\<lambda>p fs. (None, fs)),
      host_mkdir = (\<lambda>p fs. (None, fs)),
      host_signal_repr = (\<lambda>n. ''<Signals.SIGKILL: 9>'')\<rparr>"

section \<open>Observations on a trace\<close>

text \<open>The external commands started and the files written, in order.\<close>

fun execs :: "event list \<Rightarrow> (string list \<times> path) list" where
  "execs [] = []"
| "execs (Exec cmd cwd # evs) = (cmd, cwd) # execs evs"
| "execs (_ # evs) = execs evs"

fun writes :: "event list \<Rightarrow> (path \<times> string) list" where
  "writes [] = []"
| "writes (WriteText p t # evs) = (p, t) # writes evs"
| "writes (_ # evs) = writes evs"

text \<open>The version declarations of a manifest, and a manifest that can be read and holds
  version declarations.\<close>

definition declarations :: "filesys \<Rightarrow> path \<Rightarrow> string list" where
  "declarations fs p = (case read_text fs p of Inl e \<Rightarrow> [] | Inr t \<Rightarrow> extract_versions t)"

definition has_version :: "filesys \<Rightarrow> path \<Rightarrow> bool" where
  "has_version fs p \<longleftrightarrow> (case read_text fs p of Inl e \<Rightarrow> False | Inr t \<Rightarrow> extract_versions t \<noteq> [])"

text \<open>The text a manifest holds once its version declarations carry the new version.\<close>

definition rewritten :: "filesys \<Rightarrow> string \<Rightarrow> path \<Rightarrow> string" where
  "rewritten fs newv_str p = (case read_text fs p of Inl e \<Rightarrow> [] | Inr old \<Rightarrow> fst (replace_version old newv_str))"

definition differs :: "filesys \<Rightarrow> string \<Rightarrow> path \<Rightarrow> bool" where
  "differs fs newv_str p \<longleftrightarrow> read_text fs p \<noteq> Inr (rewritten fs newv_str p)"

text \<open>A manifest the rewrite gets through: it holds version declarations and, when its
  text has to change, it can be written and the number of its declarations can be
  printed (it stays within the digit limit, as the number of matches in any text that
  fits a computer does).\<close>

definition rewritable :: "filesys \<Rightarrow> string \<Rightarrow> path \<Rightarrow> bool" where
  "rewritable fs newv_str p \<longleftrightarrow>
     has_version fs p
     \<and> (differs fs newv_str p \<longrightarrow>
          fs_write_error fs p = None \<and> renders (int (length (declarations fs p))))"

section \<open>Integer literals\<close>

text \<open>
  What it means for a piece of text to be an integer component, spelled out from the
  grammar of decimal integer literals rather than from the conversion: optional white
  space, an optional sign, a run of digits in which single underscores may separate two
  digits, and optional white space, with no more digits than the digit limit.
  \<open>adjacent_us\<close> says that two underscores follow each other.
\<close>

fun adjacent_us :: "string \<Rightarrow> bool" where
  "adjacent_us (c # d # s) = ((c = CHR ''_'' \<and> d = CHR ''_'') \<or> adjacent_us (d # s))"
| "adjacent_us s = False"

definition digit_run :: "string \<Rightarrow> bool" where
  "digit_run r \<longleftrightarrow>
     r \<noteq> [] \<and> list_all in_run r \<and> is_digit (hd r) \<and> is_digit (last r) \<and> \<not> adjacent_us r"

definition int_literal :: "string \<Rightarrow> bool" where
  "int_literal t \<longleftrightarrow>
     (\<exists>ws1 sg r ws2. t = ws1 @ sg @ r @ ws2
        \<and> list_all int_space ws1 \<and> list_all int_space ws2
        \<and> (sg = [] \<or> sg = ''+'' \<or> sg = ''-'')
        \<and> digit_run r \<and> length (filter is_digit r) \<le> INT_MAX_STR_DIGITS)"

chapter \<open>Properties\<close>

section \<open>Bumping\<close>

lemma kinds_normal:
  "py_strip (py_lower ''major'') = ''major''"
  "py_strip (py_lower ''minor'') = ''minor''"
  "py_strip (py_lower ''patch'') = ''patch''"
  by code_simp+

text \<open>
  Claim C1. For every version \<open>(a, b, c)\<close> with non-negative components, \<open>bump\<close> with
  kind \<open>major\<close> returns \<open>(a + 1, 0, 0)\<close>, with kind \<open>minor\<close> returns \<open>(a, b + 1, 0)\<close> and
  with kind \<open>patch\<close> returns \<open>(a, b, c + 1)\<close>: the components below the bumped one are
  reset to zero and the ones above are unchanged.
\<close>

theorem bump_kinds:
  assumes "0 \<le> a" and "0 \<le> b" and "0 \<le> c"
  shows "bump \<lparr>major = a, minor = b, patch = c\<rparr> ''major'' = Inr \<lparr>major = a + 1, minor = 0, patch = 0\<rparr>
    \<and> bump \<lparr>major = a, minor = b, patch = c\<rparr> ''minor'' = Inr \<lparr>major = a, minor = b + 1, patch = 0\<rparr>
    \<and> bump \<lparr>major = a, minor = b, patch = c\<rparr> ''patch'' = Inr \<lparr>major = a, minor = b, patch = c + 1\<rparr>"
  by (simp add: bump_def kinds_normal)

theorem bump_kinds_witness:
  "bump \<lparr>major = 1, minor = 2, patch = 3\<rparr> ''major'' = Inr \<lparr>major = 2, minor = 0, patch = 0\<rparr>
    \<and> bump \<lparr>major = 1, minor = 2, patch = 3\<rparr> ''minor'' = Inr \<lparr>major = 1, minor = 3, patch = 0\<rparr>
    \<and> bump \<lparr>major = 1, minor = 2, patch = 3\<rparr> ''patch'' = Inr \<lparr>major = 1, minor = 2, patch = 4\<rparr>"
  using bump_kinds [of 1 2 3] by simp

section \<open>Root resolution\<close>

lemma closed_walking: "closed fs V \<Longrightarrow> walking fs V p"
  by (auto simp: closed_def walking_def)

lemma parent_length: "length (parent q) \<le> length q"
  by (simp add: parent_def)

lemma parent_eq_longer:
  assumes "parent q = p" and "length q \<le> length p"
  shows "q = p"
proof (cases "parent q = q")
  case True
  with assms show ?thesis by simp
next
  case False
  then have "length (parent q) < length q" by (rule parent_shorter)
  with assms show ?thesis by simp
qed

lemma walking_ancestors:
  assumes "walking fs V p"
  shows "q \<in> V \<Longrightarrow> length q \<le> length p \<Longrightarrow> set (ancestors q) \<subseteq> V"
proof (induction q rule: ancestors.induct)
  case (1 q)
  from assms 1(2) have "parent q \<in> V \<or> parent q = p" by (auto simp: walking_def)
  then have pv: "parent q \<in> V"
  proof
    assume "parent q = p"
    then have "q = p" using 1(3) by (rule parent_eq_longer)
    with \<open>parent q = p\<close> 1(2) show ?thesis by simp
  qed
  show ?case
  proof (cases "parent q = q")
    case True
    with 1(2) show ?thesis by (subst ancestors.simps) simp
  next
    case False
    have "length (parent q) \<le> length p" using parent_length [of q] 1(3) by simp
    with False pv have "set (ancestors (parent q)) \<subseteq> V" by (intro "1.IH") auto
    with False 1(2) show ?thesis by (subst ancestors.simps) simp
  qed
qed

lemma walking_no_sln:
  assumes "walking fs V p" and "p \<in> V"
  shows "find (has_sln fs) (ancestors p) = None"
proof -
  have "set (ancestors p) \<subseteq> V" using assms by (intro walking_ancestors [OF assms(1)]) auto
  with assms(1) have "\<forall>q \<in> set (ancestors p). \<not> has_sln fs q" by (auto simp: walking_def)
  then show ?thesis by (simp add: find_None_iff)
qed

lemma walk_up_spec:
  "walking fs V p \<Longrightarrow>
   (case find (has_sln fs) (ancestors p) of
      Some r \<Rightarrow> fst (walk_up fs V p) = Some r
    | None \<Rightarrow> fst (walk_up fs V p) = None \<and> closed fs (snd (walk_up fs V p)))"
proof (induction fs V p rule: walk_up.induct)
  case (1 fs V p)
  show ?case
  proof (cases "p \<in> V")
    case True
    have "closed fs V" using "1.prems" True by (auto simp: walking_def closed_def)
    with True walking_no_sln [OF "1.prems" True] show ?thesis
      by (subst (1 2 3) walk_up.simps) simp
  next
    case notin: False
    show ?thesis
    proof (cases "has_sln fs p")
      case True
      then have "find (has_sln fs) (ancestors p) = Some p"
        by (subst ancestors.simps) simp
      with notin True show ?thesis
        by (subst walk_up.simps) (simp add: has_sln_def)
    next
      case nosln: False
      show ?thesis
      proof (cases "parent p = p")
        case True
        have "closed fs (insert p V)"
          using "1.prems" True nosln by (auto simp: walking_def closed_def)
        moreover have "find (has_sln fs) (ancestors p) = None"
          using True nosln by (subst ancestors.simps) simp
        ultimately show ?thesis using notin nosln True
          by (subst (1 2) walk_up.simps) (simp add: has_sln_def)
      next
        case False
        have w: "walking fs (insert p V) (parent p)"
          using "1.prems" nosln by (auto simp: walking_def)
        have eq: "walk_up fs V p = walk_up fs (insert p V) (parent p)"
          using notin nosln False by (subst walk_up.simps) (simp add: has_sln_def)
        have f: "find (has_sln fs) (ancestors p) = find (has_sln fs) (ancestors (parent p))"
          using nosln False by (subst ancestors.simps) simp
        have "\<not> glob fs p ''*.sln'' \<noteq> []" using nosln by (simp add: has_sln_def)
        from "1.IH" [OF notin this False w] show ?thesis
          unfolding eq f .
      qed
    qed
  qed
qed

lemma find_append_case:
  "find P (xs @ ys) = (case find P xs of Some x \<Rightarrow> Some x | None \<Rightarrow> find P ys)"
  by (induction xs) auto

lemma walk_starts_spec:
  "closed fs V \<Longrightarrow>
   walk_starts fs V starts =
     (case find (has_sln fs) (concat (map ancestors starts)) of
        Some r \<Rightarrow> Inr r
      | None \<Rightarrow> Inl root_not_found)"
proof (induction starts arbitrary: V)
  case Nil
  then show ?case by (simp add: root_not_found_def)
next
  case (Cons start starts)
  from Cons.prems have w: "walking fs V start" by (rule closed_walking)
  show ?case
  proof (cases "find (has_sln fs) (ancestors start)")
    case None
    with walk_up_spec [OF w] have "fst (walk_up fs V start) = None"
      and c: "closed fs (snd (walk_up fs V start))" by simp_all
    then obtain V' where wu: "walk_up fs V start = (None, V')" and "closed fs V'"
      by (cases "walk_up fs V start") auto
    with Cons.IH [of V'] None show ?thesis
      by (simp add: find_append_case)
  next
    case (Some r)
    with walk_up_spec [OF w] have "fst (walk_up fs V start) = Some r" by simp
    then obtain V' where "walk_up fs V start = (Some r, V')"
      by (cases "walk_up fs V start") auto
    with Some show ?thesis by (simp add: find_append_case)
  qed
qed

text \<open>
  Claim C7. Root resolution walks upward from two origins, the current working directory
  first and the directory of the script second, and returns the first directory that
  holds a solution file, in the order of the origins and then of the ancestors of each;
  if no ancestor of either origin qualifies it fails with the root-not-found error.
\<close>

theorem find_repo_root_first:
  "find_repo_root h fs =
     (case find (has_sln fs) (ancestors (host_cwd h) @ ancestors (host_script_dir h)) of
        Some r \<Rightarrow> Inr r
      | None \<Rightarrow> Inl root_not_found)"
proof -
  have "closed fs {}" by (simp add: closed_def)
  from walk_starts_spec [OF this, of "[host_cwd h, host_script_dir h]"]
  show ?thesis by (simp add: find_repo_root_def)
qed

section \<open>Soundness of the matcher\<close>

lemma try_rep_Some:
  "try_rep f n m = Some r \<Longrightarrow> \<exists>j. n \<le> j \<and> j \<le> m \<and> f j = Some r"
proof (induction m)
  case 0
  then show ?case by (auto split: if_splits)
next
  case (Suc m)
  show ?case
  proof (cases "f (Suc m)")
    case None
    with Suc.prems have "try_rep f n m = Some r" by (simp split: if_splits)
    with Suc.IH obtain j where "n \<le> j" "j \<le> m" "f j = Some r" by blast
    then show ?thesis by (intro exI [of _ j]) simp
  next
    case (Some r')
    with Suc.prems have "n \<le> Suc m" "r' = r" by (simp_all split: if_splits)
    with Some show ?thesis by (intro exI [of _ "Suc m"]) simp
  qed
qed

lemma take_takeWhile_all:
  assumes "j \<le> length (takeWhile P s)"
  shows "list_all P (take j s)" and "length (take j s) = j"
proof -
  have "take j (takeWhile P s @ dropWhile P s)
      = take j (takeWhile P s) @ take (j - length (takeWhile P s)) (dropWhile P s)"
    by (rule take_append)
  then have eq: "take j s = take j (takeWhile P s)" using assms by simp
  have "set (take j (takeWhile P s)) \<subseteq> set (takeWhile P s)" by (rule set_take_subset)
  then show "list_all P (take j s)"
    unfolding eq list_all_iff by (auto dest: set_takeWhileD)
  show "length (take j s) = j" unfolding eq using assms by simp
qed

lemma match_here_sound:
  "match_here as s = Some ps \<Longrightarrow> list_all2 piece_ok as ps \<and> take (length (concat ps)) s = concat ps"
proof (induction as arbitrary: s ps)
  case Nil
  then show ?case by simp
next
  case (Cons a as)
  show ?case
  proof (cases a)
    case (Lit l)
    with Cons.prems obtain ps' where lm: "lit_match l s"
      and ps: "ps = take (length l) s # ps'"
      and rec: "match_here as (drop (length l) s) = Some ps'"
      by (auto split: if_splits)
    from Cons.IH [OF rec] have ok: "list_all2 piece_ok as ps'"
      and pre: "take (length (concat ps')) (drop (length l) s) = concat ps'" by simp_all
    from lm have len: "length l \<le> length s" and low: "py_lower (take (length l) s) = py_lower l"
      by (simp_all add: lit_match_def)
    have "take (length l + length (concat ps')) s
        = take (length l) s @ take (length (concat ps')) (drop (length l) s)"
      by (simp add: take_add)
    with pre len have "take (length (concat ps)) s = concat ps"
      by (simp add: ps min_absorb2)
    with ok low Lit ps show ?thesis by simp
  next
    case (Rep k n)
    with Cons.prems have "try_rep (\<lambda>m. map_option ((#) (take m s)) (match_here as (drop m s)))
        n (length (takeWhile (in_cls k) s)) = Some ps" by simp
    from try_rep_Some [OF this] obtain j ps' where j: "n \<le> j" "j \<le> length (takeWhile (in_cls k) s)"
      and ps: "ps = take j s # ps'" and rec: "match_here as (drop j s) = Some ps'"
      by auto
    from Cons.IH [OF rec] have ok: "list_all2 piece_ok as ps'"
      and pre: "take (length (concat ps')) (drop j s) = concat ps'" by simp_all
    from take_takeWhile_all [OF j(2)] have cls: "list_all (in_cls k) (take j s)"
      and len: "length (take j s) = j" by simp_all
    have "take (j + length (concat ps')) s = take j s @ take (length (concat ps')) (drop j s)"
      by (simp add: take_add)
    with pre len have "take (length (concat ps)) s = concat ps"
      by (simp add: ps)
    with ok cls len j(1) Rep ps show ?thesis by simp
  qed
qed

lemma finditer_from_matches:
  "m \<in> set (finditer_from r s pos) \<Longrightarrow>
     pos \<le> m_start m \<and> m_start m \<le> length s
     \<and> match_here (map fst r) (drop (m_start m) s) = Some (m_pieces m)"
proof (induction r s pos rule: finditer_from.induct)
  case (1 r s pos)
  show ?case
  proof (cases "length s < pos")
    case True
    with "1.prems" show ?thesis by (subst (asm) finditer_from.simps) simp
  next
    case le: False
    show ?thesis
    proof (cases "match_here (map fst r) (drop pos s)")
      case None
      with le "1.prems" have "m \<in> set (finditer_from r s (Suc pos))"
        by (subst (asm) finditer_from.simps) simp
      from "1.IH"(1) [OF le None this] show ?thesis by simp
    next
      case (Some ps)
      with le "1.prems" have "m = \<lparr>m_start = pos, m_pieces = ps\<rparr>
          \<or> m \<in> set (finditer_from r s (pos + max 1 (length (concat ps))))"
        by (subst (asm) finditer_from.simps) simp
      then show ?thesis
      proof
        assume "m = \<lparr>m_start = pos, m_pieces = ps\<rparr>"
        with le Some show ?thesis by simp
      next
        assume "m \<in> set (finditer_from r s (pos + max 1 (length (concat ps))))"
        from "1.IH"(2) [OF le Some this] show ?thesis by simp
      qed
    qed
  qed
qed

section \<open>Traces of the single steps\<close>

lemma execs_append: "execs (xs @ ys) = execs xs @ execs ys"
  by (induction xs rule: execs.induct) simp_all

lemma writes_append: "writes (xs @ ys) = writes xs @ writes ys"
  by (induction xs rule: writes.induct) simp_all

lemma emit_simps:
  "disk (emit e s) = disk s"
  "trace (emit e s) = trace s @ [e]"
  by (simp_all add: emit_def)

lemma stored_simps:
  "trace (stored p t s) = trace s @ [WriteText p t]"
  "fs_resolve (disk (stored p t s)) = fs_resolve (disk s)"
  "fs_glob (disk (stored p t s)) = fs_glob (disk s)"
  "fs_exists (disk (stored p t s)) = fs_exists (disk s)"
  "fs_write_error (disk (stored p t s)) = fs_write_error (disk s)"
  "fs_text (disk (stored p t s)) = (fs_text (disk s))(fs_resolve (disk s) p \<mapsto> t)"
  by (simp_all add: stored_def emit_def)

section \<open>Discovery of the manifests\<close>

lemma collect_csproj_disk: "disk (snd (collect_csproj root dirs files s)) = disk s"
  by (induction root dirs files s rule: collect_csproj.induct) (simp_all add: emit_simps)

lemma collect_csproj_trace:
  "execs (trace (snd (collect_csproj root dirs files s))) = execs (trace s)
   \<and> writes (trace (snd (collect_csproj root dirs files s))) = writes (trace s)"
  by (induction root dirs files s rule: collect_csproj.induct)
    (simp_all add: emit_simps execs_append writes_append)

lemma collect_csproj_cong:
  "disk s = disk s' \<Longrightarrow> fst (collect_csproj root dirs files s) = fst (collect_csproj root dirs files s')"
proof (induction root dirs files s arbitrary: s' rule: collect_csproj.induct)
  case (1 root files s)
  then show ?case by simp
next
  case (2 root rel_dir dirs files s)
  show ?case
  proof (cases "fs_exists (disk s) (root @ rel_dir)")
    case True
    with 2 show ?thesis by simp
  next
    case False
    have "disk (emit (EPrint (''Warning: directory missing: '' @ str_path (root @ rel_dir))) s)
        = disk (emit (EPrint (''Warning: directory missing: '' @ str_path (root @ rel_dir))) s')"
      using "2.prems" by (simp add: emit_simps)
    from "2.IH"(1) [OF _ this] False "2.prems" show ?thesis by simp
  qed
qed

lemma collect_csproj_below:
  assumes "\<forall>p \<in> set files. take (length root) p = root"
  shows "\<forall>p \<in> set (fst (collect_csproj root dirs files s)). take (length root) p = root"
  using assms
proof (induction root dirs files s rule: collect_csproj.induct)
  case (1 root files s)
  then show ?case by simp
next
  case (2 root rel_dir dirs files s)
  show ?case
  proof (cases "fs_exists (disk s) (root @ rel_dir)")
    case True
    have "\<forall>p \<in> set (files @ sort (glob (disk s) (root @ rel_dir) ''*.csproj'')). take (length root) p = root"
      using "2.prems" by (auto simp: glob_def)
    from "2.IH"(2) [OF _ this] True show ?thesis by simp
  next
    case False
    from "2.IH"(1) [OF _ "2.prems"] False show ?thesis by simp
  qed
qed

lemma dedupe_subset: "set (dedupe fs files uniq seen) \<subseteq> set files \<union> set uniq"
  by (induction fs files uniq seen rule: dedupe.induct) (auto split: if_splits)

lemma dedupe_distinct:
  assumes "distinct (map (fs_resolve fs) uniq)" and "seen = fs_resolve fs ` set uniq"
  shows "distinct (map (fs_resolve fs) (dedupe fs files uniq seen))"
  using assms
  by (induction fs files uniq seen rule: dedupe.induct) auto

lemma find_csproj_files_alt:
  "find_csproj_files root s =
     (dedupe (disk s) (fst (collect_csproj root PROJECT_DIRS [] s)) [] {},
      snd (collect_csproj root PROJECT_DIRS [] s))"
  by (simp add: find_csproj_files_def case_prod_beta collect_csproj_disk)

lemma find_csproj_files_disk: "disk (snd (find_csproj_files root s)) = disk s"
  by (simp add: find_csproj_files_alt collect_csproj_disk)

lemma find_csproj_files_trace:
  "execs (trace (snd (find_csproj_files root s))) = execs (trace s)
   \<and> writes (trace (snd (find_csproj_files root s))) = writes (trace s)"
  by (simp add: find_csproj_files_alt collect_csproj_trace)

lemma find_csproj_files_cong:
  assumes "disk s = disk s'"
  shows "fst (find_csproj_files root s) = fst (find_csproj_files root s')"
  using assms collect_csproj_cong [OF assms, of root PROJECT_DIRS "[]"]
  by (simp add: find_csproj_files_alt)

lemma find_csproj_files_below:
  assumes "p \<in> set (fst (find_csproj_files root s))"
  shows "take (length root) p = root"
proof -
  have "\<forall>p \<in> set (fst (collect_csproj root PROJECT_DIRS [] s)). take (length root) p = root"
    by (rule collect_csproj_below) simp
  moreover have "set (fst (find_csproj_files root s)) \<subseteq> set (fst (collect_csproj root PROJECT_DIRS [] s))"
    using dedupe_subset [of "disk s" "fst (collect_csproj root PROJECT_DIRS [] s)" "[]" "{}"]
    by (simp add: find_csproj_files_alt)
  ultimately show ?thesis using assms by blast
qed

lemma find_csproj_files_distinct:
  "distinct (map (fs_resolve (disk s)) (fst (find_csproj_files root s)))"
proof -
  have "distinct (map (fs_resolve (disk s))
      (dedupe (disk s) (fst (collect_csproj root PROJECT_DIRS [] s)) [] {}))"
    by (rule dedupe_distinct) simp_all
  then show ?thesis by (simp add: find_csproj_files_alt)
qed

lemma relative_to_below:
  assumes "take (length root) p = root"
  shows "\<exists>rel. relative_to p root = Inr rel"
  using assms by (simp add: relative_to_def)

section \<open>Decimal digits and the digit limit\<close>

lemma digit_char_props:
  assumes "k < 10"
  shows "is_digit (digit_char k)" and "digit_val (digit_char k) = k"
proof -
  from assms have "k \<in> {0,1,2,3,4,5,6,7,8,9}" by auto
  then show "is_digit (digit_char k)" and "digit_val (digit_char k) = k"
    by (auto simp: is_digit_def digit_char_def digit_val_def)
qed

lemma is_digit_not_space: "is_digit c \<Longrightarrow> \<not> is_space c"
  by (auto simp: is_digit_def is_space_def)

lemma is_digit_not_int_space: "is_digit c \<Longrightarrow> \<not> int_space c"
  by (auto simp: is_digit_def int_space_def)

lemma is_digit_not_special:
  "is_digit c \<Longrightarrow> c \<noteq> CHR ''.'' \<and> c \<noteq> CHR ''-'' \<and> c \<noteq> CHR ''+'' \<and> c \<noteq> CHR ''_''"
  by (auto simp: is_digit_def)

lemma str_nat_digits: "list_all is_digit (str_nat n)"
proof (induction n rule: str_nat.induct)
  case (1 n)
  show ?case
  proof (cases "n < 10")
    case True
    then show ?thesis by (subst str_nat.simps) (simp add: digit_char_props)
  next
    case False
    with 1 show ?thesis by (subst str_nat.simps) (simp add: digit_char_props)
  qed
qed

lemma str_nat_nonempty: "str_nat n \<noteq> []"
  by (subst str_nat.simps) simp

lemma str_nat_step: "\<not> n < 10 \<Longrightarrow> length (str_nat n) = Suc (length (str_nat (n div 10)))"
  by (subst str_nat.simps) simp

lemma str_nat_short: "n < 10 ^ k \<Longrightarrow> 0 < k \<Longrightarrow> length (str_nat n) \<le> k"
proof (induction n arbitrary: k rule: str_nat.induct)
  case (1 n)
  show ?case
  proof (cases "n < 10")
    case True
    with "1.prems" show ?thesis by (subst str_nat.simps) simp
  next
    case False
    obtain j where k: "k = Suc j" using "1.prems"(2) by (cases k) auto
    with "1.prems"(1) have "n div 10 < 10 ^ j"
      by (simp add: less_mult_imp_div_less mult.commute)
    moreover have "0 < j"
    proof (rule ccontr)
      assume "\<not> 0 < j"
      with k "1.prems"(1) False show False by simp
    qed
    ultimately have "length (str_nat (n div 10)) \<le> j" using "1.IH" False by simp
    with k False show ?thesis by (simp add: str_nat_step)
  qed
qed

lemma str_nat_long: "10 ^ k \<le> n \<Longrightarrow> k < length (str_nat n)"
proof (induction k arbitrary: n)
  case 0
  then show ?case using str_nat_nonempty [of n] by (cases "str_nat n") auto
next
  case (Suc k)
  then have "10 * 10 ^ k \<le> n" by simp
  then have "10 ^ k \<le> n div 10" by (simp add: less_eq_div_iff_mult_less_eq mult.commute)
  with Suc.IH have "k < length (str_nat (n div 10))" by simp
  moreover have "\<not> n < 10"
  proof
    assume "n < 10"
    moreover have "(1::nat) \<le> 10 ^ k" by simp
    ultimately show False using \<open>10 * 10 ^ k \<le> n\<close> by simp
  qed
  ultimately show ?case by (simp add: str_nat_step)
qed

lemma str_nat_length_iff: "0 < k \<Longrightarrow> length (str_nat n) \<le> k \<longleftrightarrow> n < 10 ^ k"
  using str_nat_short [of n k] str_nat_long [of k n] by (auto simp: not_less [symmetric])

lemma limit_positive: "0 < INT_MAX_STR_DIGITS"
  by (simp add: INT_MAX_STR_DIGITS_def)

text \<open>What \<open>renders\<close> means: the absolute value is below ten to the power of the limit.\<close>

lemma renders_iff: "renders i \<longleftrightarrow> \<bar>i\<bar> < 10 ^ INT_MAX_STR_DIGITS"
proof -
  have "renders i \<longleftrightarrow> nat \<bar>i\<bar> < 10 ^ INT_MAX_STR_DIGITS"
    unfolding renders_def by (rule str_nat_length_iff [OF limit_positive])
  also have "\<dots> \<longleftrightarrow> int (nat \<bar>i\<bar>) < int (10 ^ INT_MAX_STR_DIGITS)" by (simp only: of_nat_less_iff)
  also have "\<dots> \<longleftrightarrow> \<bar>i\<bar> < 10 ^ INT_MAX_STR_DIGITS" by simp
  finally show ?thesis .
qed

lemma renders_nat: "n < 10 ^ INT_MAX_STR_DIGITS \<Longrightarrow> renders (int n)"
  by (simp add: renders_def str_nat_length_iff [OF limit_positive])


section \<open>Round trip of str and parse\<close>

lemma py_digits_all_digits:
  "list_all is_digit xs \<Longrightarrow> xs \<noteq> [] \<Longrightarrow> py_digits prev acc xs = Some (dec_val acc xs)"
proof (induction xs arbitrary: prev acc)
  case Nil
  then show ?case by simp
next
  case (Cons c xs)
  show ?case
  proof (cases "xs = []")
    case True
    with Cons.prems show ?thesis by (simp add: dec_val_def)
  next
    case False
    with Cons.prems have "py_digits True (10 * acc + digit_val c) xs
        = Some (dec_val (10 * acc + digit_val c) xs)"
      by (intro Cons.IH) simp_all
    with Cons.prems show ?thesis by (simp add: dec_val_def)
  qed
qed

lemma dec_val_str_nat: "dec_val 0 (str_nat n) = n"
proof (induction n rule: str_nat.induct)
  case (1 n)
  show ?case
  proof (cases "n < 10")
    case True
    then show ?thesis by (subst str_nat.simps) (simp add: dec_val_def digit_char_props)
  next
    case False
    with 1 have "dec_val 0 (str_nat (n div 10)) = n div 10" by simp
    with False show ?thesis
      by (subst str_nat.simps) (simp add: dec_val_def digit_char_props)
  qed
qed

lemma py_strip_id:
  assumes "s \<noteq> []" and "\<not> is_space (hd s)" and "\<not> is_space (last s)"
  shows "py_strip s = s"
proof -
  from assms have a: "dropWhile is_space s = s" by (cases s) auto
  from assms have "rev s \<noteq> []" and "\<not> is_space (hd (rev s))" by (auto simp: hd_rev)
  then have "dropWhile is_space (rev s) = rev s" by (cases "rev s") auto
  with a show ?thesis by (simp add: py_strip_def)
qed

text \<open>\<open>int\<close> of a string of digits: the value, unless there are too many digits.\<close>

lemma takeWhile_all: "list_all P xs \<Longrightarrow> takeWhile P xs = xs"
  by (induction xs) auto

lemma dropWhile_all: "list_all P xs \<Longrightarrow> dropWhile P xs = []"
  by (induction xs) auto

lemma filter_all: "list_all P xs \<Longrightarrow> filter P xs = xs"
  by (induction xs) auto

lemma dropWhile_hd: "xs \<noteq> [] \<Longrightarrow> \<not> P (hd xs) \<Longrightarrow> dropWhile P xs = xs"
  by (cases xs) auto

lemma takeWhile_none: "\<forall>c \<in> set ys. \<not> P c \<Longrightarrow> takeWhile P ys = []"
  by (cases ys) auto

lemma dropWhile_none: "\<forall>c \<in> set ys. \<not> P c \<Longrightarrow> dropWhile P ys = ys"
  by (cases ys) auto

lemma int_space_not_in_run: "int_space c \<Longrightarrow> \<not> in_run c"
  by (auto simp: int_space_def in_run_def is_digit_def)

text \<open>\<open>int\<close> of a string made of white space, a sign, a run that starts with a digit, and
  white space.\<close>

lemma py_int_parts:
  assumes ws1: "list_all int_space ws1" and sg: "sg = [] \<or> sg = ''+'' \<or> sg = ''-''"
    and run: "list_all in_run r" and hd: "r \<noteq> []" "is_digit (hd r)"
    and ws2: "list_all int_space ws2"
  shows "py_int (ws1 @ sg @ r @ ws2) =
     (case py_digits False 0 r of
        None \<Rightarrow> Inl (invalid_literal (ws1 @ sg @ r @ ws2))
      | Some n \<Rightarrow>
          if INT_MAX_STR_DIGITS < length (filter is_digit r)
          then Inl (digit_limit_int (length (filter is_digit r)))
          else Inr (if sg = ''-'' then - int n else int n))"
proof -
  have h: "\<not> int_space (hd r)" "hd r \<noteq> CHR ''-''" "hd r \<noteq> CHR ''+''"
    using hd(2) is_digit_not_int_space is_digit_not_special by auto
  have nz: "sg @ r @ ws2 \<noteq> []" using hd by simp
  have "\<not> int_space (hd (sg @ r @ ws2))" using sg h hd(1) by (auto simp: int_space_def)
  with nz have "dropWhile int_space (sg @ r @ ws2) = sg @ r @ ws2" by (rule dropWhile_hd)
  moreover have "dropWhile int_space (ws1 @ sg @ r @ ws2) = dropWhile int_space (sg @ r @ ws2)"
    using ws1 by (intro dropWhile_append2) (simp add: list_all_iff)
  ultimately have d1: "dropWhile int_space (ws1 @ sg @ r @ ws2) = sg @ r @ ws2" by simp
  have s2: "(if sg @ r @ ws2 \<noteq> [] \<and> (hd (sg @ r @ ws2) = CHR ''-'' \<or> hd (sg @ r @ ws2) = CHR ''+'')
      then tl (sg @ r @ ws2) else sg @ r @ ws2) = r @ ws2"
    using sg h hd(1) by auto
  have neg: "(sg @ r @ ws2 \<noteq> [] \<and> hd (sg @ r @ ws2) = CHR ''-'') = (sg = ''-'')"
    using sg h hd(1) by auto
  have nr: "\<forall>c \<in> set ws2. \<not> in_run c" using ws2 int_space_not_in_run by (auto simp: list_all_iff)
  have "takeWhile in_run (r @ ws2) = r @ takeWhile in_run ws2"
    using run by (intro takeWhile_append2) (simp add: list_all_iff)
  with takeWhile_none [OF nr] have tw: "takeWhile in_run (r @ ws2) = r" by simp
  have "dropWhile in_run (r @ ws2) = dropWhile in_run ws2"
    using run by (intro dropWhile_append2) (simp add: list_all_iff)
  with dropWhile_none [OF nr] have dw: "dropWhile in_run (r @ ws2) = ws2" by simp
  show ?thesis
    unfolding py_int_def Let_def d1 s2 neg tw dw using ws2 by (simp split: option.splits)
qed

lemma py_int_signed_digits:
  assumes "list_all is_digit ds" and "ds \<noteq> []" and "sg = [] \<or> sg = ''-''"
  shows "py_int (sg @ ds) =
    (if INT_MAX_STR_DIGITS < length ds then Inl (digit_limit_int (length ds))
     else Inr (if sg = ''-'' then - int (dec_val 0 ds) else int (dec_val 0 ds)))"
proof -
  have run: "list_all in_run ds" using assms(1) by (simp add: list_all_iff in_run_def)
  have hd: "is_digit (hd ds)" using assms(1,2) by (simp add: list_all_iff)
  have sg: "sg = [] \<or> sg = ''+'' \<or> sg = ''-''" using assms(3) by auto
  from py_int_parts [of "[]" sg ds "[]", OF _ sg run assms(2) hd]
  show ?thesis
    by (simp add: py_digits_all_digits [OF assms(1,2)] filter_all [OF assms(1)] del: py_digits.simps)
qed

lemma py_int_str_int:
  assumes "str_int i = Inr t"
  shows "py_int t = Inr i"
proof -
  from assms have r: "renders i"
    and t: "t = (if i < 0 then CHR ''-'' # str_nat (nat (- i)) else str_nat (nat i))"
    by (auto simp: str_int_def split: if_splits)
  show ?thesis
  proof (cases "i < 0")
    case True
    then have "nat \<bar>i\<bar> = nat (- i)" by simp
    with r have "length (str_nat (nat (- i))) \<le> INT_MAX_STR_DIGITS" by (simp add: renders_def)
    with py_int_signed_digits [OF str_nat_digits str_nat_nonempty, of "''-''" "nat (- i)"] True t
    show ?thesis by (simp add: dec_val_str_nat)
  next
    case False
    then have "nat \<bar>i\<bar> = nat i" by simp
    with r have "length (str_nat (nat i)) \<le> INT_MAX_STR_DIGITS" by (simp add: renders_def)
    with py_int_signed_digits [OF str_nat_digits str_nat_nonempty, of "[]" "nat i"] False t
    show ?thesis by (simp add: dec_val_str_nat)
  qed
qed

lemma str_int_shape:
  assumes "str_int i = Inr t"
  shows "t \<noteq> []" and "\<not> is_space (hd t)" and "\<not> is_space (last t)" and "CHR ''.'' \<notin> set t"
proof -
  from assms have t: "t = (if i < 0 then CHR ''-'' # str_nat (nat (- i)) else str_nat (nat i))"
    by (auto simp: str_int_def split: if_splits)
  have d: "\<forall>c \<in> set (str_nat n). is_digit c" for n
    using str_nat_digits [of n] by (simp add: list_all_iff)
  have h: "is_digit (hd (str_nat n))" "is_digit (last (str_nat n))" for n
    using d [of n] str_nat_nonempty [of n] by simp_all
  have m: "\<not> is_space CHR ''-''" by (simp add: is_space_def)
  show "t \<noteq> []" using t str_nat_nonempty by simp
  show "\<not> is_space (hd t)" using t h m by (simp add: is_digit_not_space)
  show "\<not> is_space (last t)" using t h str_nat_nonempty by (simp add: is_digit_not_space)
  show "CHR ''.'' \<notin> set t" using t d is_digit_not_special by auto
qed

lemma split_acc_append:
  "sep \<notin> set xs \<Longrightarrow> split_acc sep cur (xs @ ys) = split_acc sep (cur @ xs) ys"
  by (induction xs arbitrary: cur) auto

lemma py_split_three:
  assumes "sep \<notin> set a" "sep \<notin> set b" "sep \<notin> set c"
  shows "py_split sep (a @ [sep] @ b @ [sep] @ c) = [a, b, c]"
proof -
  have "split_acc sep [] (a @ [sep] @ b @ [sep] @ c) = a # split_acc sep [] (b @ [sep] @ c)"
    using assms by (simp add: split_acc_append)
  also have "split_acc sep [] (b @ [sep] @ c) = b # split_acc sep [] c"
    using assms by (simp add: split_acc_append)
  also have "split_acc sep [] c = [c]"
    using assms split_acc_append [of sep c "[]" "[]"] by simp
  finally show ?thesis by (simp add: py_split_def)
qed

lemma parse_str_SemVer:
  assumes "str_SemVer v = Inr t"
  shows "parse t = Inr v"
proof -
  from assms obtain a b c where a: "str_int (major v) = Inr a" and b: "str_int (minor v) = Inr b"
    and c: "str_int (patch v) = Inr c" and t: "t = a @ ''.'' @ b @ ''.'' @ c"
    by (auto simp: str_SemVer_def split: sum.splits)
  have "hd t = hd a" "last t = last c" "t \<noteq> []"
    using t str_int_shape(1) [OF a] str_int_shape(1) [OF c] by simp_all
  then have "py_strip t = t"
    using str_int_shape(2) [OF a] str_int_shape(3) [OF c] by (intro py_strip_id) simp_all
  moreover have "py_split CHR ''.'' t = [a, b, c]"
    using py_split_three [OF str_int_shape(4) [OF a] str_int_shape(4) [OF b] str_int_shape(4) [OF c]]
    by (simp add: t)
  ultimately show ?thesis
    by (simp add: parse_def py_int_str_int [OF a] py_int_str_int [OF b] py_int_str_int [OF c])
qed

lemma str_SemVer_total:
  "(\<exists>t. str_SemVer v = Inr t) \<longleftrightarrow> renders (major v) \<and> renders (minor v) \<and> renders (patch v)"
  by (auto simp: str_SemVer_def str_int_def split: sum.splits)

lemma str_SemVer_fails:
  assumes "\<not> (renders (major v) \<and> renders (minor v) \<and> renders (patch v))"
  shows "str_SemVer v = Inl digit_limit_str"
  using assms by (auto simp: str_SemVer_def str_int_def split: sum.splits)



text \<open>
  Claim C8, as the code has it. For a version whose components are non-negative and have
  at most 4300 decimal digits each (they are below \<open>10 ^ 4300\<close>), rendering succeeds and
  parsing the rendered string yields the version again. For a version with a component of
  more digits the round trip does not exist: rendering raises \<^verbatim>\<open>ValueError\<close>, because
  the interpreter refuses to convert an integer of more than 4300 digits to a string.
\<close>

theorem parse_str_roundtrip:
  assumes "non_negative v"
  shows "(major v < 10 ^ INT_MAX_STR_DIGITS \<and> minor v < 10 ^ INT_MAX_STR_DIGITS
            \<and> patch v < 10 ^ INT_MAX_STR_DIGITS
          \<longrightarrow> (\<exists>t. str_SemVer v = Inr t \<and> parse t = Inr v))
       \<and> (\<not> (major v < 10 ^ INT_MAX_STR_DIGITS \<and> minor v < 10 ^ INT_MAX_STR_DIGITS
            \<and> patch v < 10 ^ INT_MAX_STR_DIGITS)
          \<longrightarrow> str_SemVer v = Inl digit_limit_str)"
proof -
  from assms have "\<bar>major v\<bar> = major v" "\<bar>minor v\<bar> = minor v" "\<bar>patch v\<bar> = patch v"
    by (simp_all add: non_negative_def)
  then have r: "renders (major v) \<and> renders (minor v) \<and> renders (patch v)
      \<longleftrightarrow> major v < 10 ^ INT_MAX_STR_DIGITS \<and> minor v < 10 ^ INT_MAX_STR_DIGITS
            \<and> patch v < 10 ^ INT_MAX_STR_DIGITS"
    by (simp add: renders_iff)
  show ?thesis
  proof (intro conjI impI)
    assume "major v < 10 ^ INT_MAX_STR_DIGITS \<and> minor v < 10 ^ INT_MAX_STR_DIGITS
            \<and> patch v < 10 ^ INT_MAX_STR_DIGITS"
    with r have "renders (major v) \<and> renders (minor v) \<and> renders (patch v)" by simp
    then obtain t where t: "str_SemVer v = Inr t" using str_SemVer_total [of v] by blast
    from parse_str_SemVer [OF t] t show "\<exists>t. str_SemVer v = Inr t \<and> parse t = Inr v" by simp
  next
    assume "\<not> (major v < 10 ^ INT_MAX_STR_DIGITS \<and> minor v < 10 ^ INT_MAX_STR_DIGITS
            \<and> patch v < 10 ^ INT_MAX_STR_DIGITS)"
    with r have "\<not> (renders (major v) \<and> renders (minor v) \<and> renders (patch v))" by simp
    then show "str_SemVer v = Inl digit_limit_str" by (rule str_SemVer_fails)
  qed
qed

theorem parse_str_roundtrip_witness:
  "non_negative \<lparr>major = 10, minor = 0, patch = 123\<rparr>
   \<and> str_SemVer \<lparr>major = 10, minor = 0, patch = 123\<rparr> = Inr ''10.0.123''
   \<and> parse ''10.0.123'' = Inr \<lparr>major = 10, minor = 0, patch = 123\<rparr>"
proof -
  let ?v = "\<lparr>major = 10, minor = 0, patch = 123\<rparr>"
  have n: "non_negative ?v" by (simp add: non_negative_def)
  have "renders 10" "renders 0" "renders 123" by code_simp+
  then have b: "major ?v < 10 ^ INT_MAX_STR_DIGITS \<and> minor ?v < 10 ^ INT_MAX_STR_DIGITS
      \<and> patch ?v < 10 ^ INT_MAX_STR_DIGITS"
    by (simp add: renders_iff)
  have s: "str_SemVer ?v = Inr ''10.0.123''" by code_simp
  from parse_str_roundtrip [OF n] b obtain t where "str_SemVer ?v = Inr t" "parse t = Inr ?v"
    by blast
  with s n show ?thesis by simp
qed

theorem str_digit_limit_counterexample:
  "non_negative \<lparr>major = 10 ^ INT_MAX_STR_DIGITS, minor = 0, patch = 0\<rparr>
   \<and> str_SemVer \<lparr>major = 10 ^ INT_MAX_STR_DIGITS, minor = 0, patch = 0\<rparr> = Inl digit_limit_str"
proof -
  have "\<not> renders (10 ^ INT_MAX_STR_DIGITS)" by (simp add: renders_iff)
  then have "str_SemVer \<lparr>major = 10 ^ INT_MAX_STR_DIGITS, minor = 0, patch = 0\<rparr> = Inl digit_limit_str"
    by (intro str_SemVer_fails) simp
  then show ?thesis by (simp add: non_negative_def)
qed

section \<open>Integer literals and the conversion\<close>

lemma py_digits_iff:
  "py_digits prev acc r \<noteq> None \<longleftrightarrow>
     list_all in_run r \<and> \<not> adjacent_us r
     \<and> (if r = [] then prev else (prev \<or> is_digit (hd r)) \<and> is_digit (last r))"
proof (induction r arbitrary: prev acc)
  case Nil
  then show ?case by simp
next
  case (Cons c s)
  have u: "\<not> is_digit CHR ''_''" by (simp add: is_digit_def)
  show ?case
  proof (cases "is_digit c")
    case True
    then have nu: "c \<noteq> CHR ''_''" using u by auto
    have "adjacent_us (c # s) = adjacent_us s" using nu by (cases s) auto
    with True Cons.IH [of True "10 * acc + digit_val c"] show ?thesis
      by (auto simp: in_run_def)
  next
    case nd: False
    show ?thesis
    proof (cases "c = CHR ''_'' \<and> prev")
      case True
      show ?thesis
      proof (cases s)
        case Nil
        with True nd show ?thesis by (simp add: in_run_def)
      next
        case (Cons d s')
        have "adjacent_us (c # d # s') = (d = CHR ''_'' \<or> adjacent_us (d # s'))"
          using True by simp
        moreover have "in_run d \<and> d \<noteq> CHR ''_'' \<longleftrightarrow> is_digit d" using u by (auto simp: in_run_def)
        ultimately show ?thesis
          using True nd Cons.IH [of False acc] Cons by (auto simp: in_run_def)
      qed
    next
      case False
      with nd show ?thesis by (auto simp: in_run_def)
    qed
  qed
qed

lemma py_digits_digit_run: "py_digits False acc r \<noteq> None \<longleftrightarrow> digit_run r"
  unfolding py_digits_iff digit_run_def by auto

lemma int_literal_converts:
  assumes "int_literal t"
  shows "\<exists>i. py_int t = Inr i"
proof -
  from assms obtain ws1 sg r ws2 where t: "t = ws1 @ sg @ r @ ws2"
    and ws: "list_all int_space ws1" "list_all int_space ws2"
    and sg: "sg = [] \<or> sg = ''+'' \<or> sg = ''-''"
    and r: "digit_run r" and n: "length (filter is_digit r) \<le> INT_MAX_STR_DIGITS"
    by (auto simp: int_literal_def)
  from r have rr: "list_all in_run r" "r \<noteq> []" "is_digit (hd r)" by (simp_all add: digit_run_def)
  from r obtain k where k: "py_digits False 0 r = Some k"
    using py_digits_digit_run [of 0 r] by auto
  from py_int_parts [OF ws(1) sg rr ws(2)] k n show ?thesis
    by (simp add: t)
qed

lemma converts_int_literal:
  assumes "py_int t = Inr i"
  shows "int_literal t"
proof -
  define s1 where "s1 = dropWhile int_space t"
  define sg where "sg = (if s1 \<noteq> [] \<and> (hd s1 = CHR ''-'' \<or> hd s1 = CHR ''+'') then [hd s1] else [])"
  define s2 where "s2 = (if s1 \<noteq> [] \<and> (hd s1 = CHR ''-'' \<or> hd s1 = CHR ''+'') then tl s1 else s1)"
  define r where "r = takeWhile in_run s2"
  define ws2 where "ws2 = dropWhile in_run s2"
  have a: "(case py_digits False 0 r of
       None \<Rightarrow> Inl (invalid_literal t)
     | Some n \<Rightarrow>
         if INT_MAX_STR_DIGITS < length (filter is_digit r)
         then Inl (digit_limit_int (length (filter is_digit r)))
         else if \<not> list_all int_space ws2 then Inl (invalid_literal t)
         else Inr (if s1 \<noteq> [] \<and> hd s1 = CHR ''-'' then - int n else int n)) = Inr i"
    using assms unfolding py_int_def Let_def s1_def s2_def r_def ws2_def .
  then have d: "py_digits False 0 r \<noteq> None" by (auto split: option.splits)
  with a have n: "length (filter is_digit r) \<le> INT_MAX_STR_DIGITS" and w2: "list_all int_space ws2"
    by (auto split: option.splits if_splits)
  from d have dr: "digit_run r" unfolding py_digits_digit_run .
  have "t = takeWhile int_space t @ s1" by (simp add: s1_def)
  moreover have "s1 = sg @ s2" by (cases s1) (auto simp: sg_def s2_def)
  moreover have "s2 = r @ ws2" by (simp add: r_def ws2_def)
  ultimately have t: "t = takeWhile int_space t @ sg @ r @ ws2" by simp
  have w1: "list_all int_space (takeWhile int_space t)"
    by (auto simp: list_all_iff dest: set_takeWhileD)
  have sg: "sg = [] \<or> sg = ''+'' \<or> sg = ''-''" by (auto simp: sg_def)
  show ?thesis
    unfolding int_literal_def using t w1 w2 sg dr n by blast
qed

lemma py_int_literal: "(\<exists>i. py_int t = Inr i) \<longleftrightarrow> int_literal t"
  using int_literal_converts converts_int_literal by blast

section \<open>Splitting at the dots\<close>

lemma split_acc_nonempty: "split_acc sep cur t \<noteq> []"
  by (induction t arbitrary: cur) auto

lemma py_join_cons: "ps \<noteq> [] \<Longrightarrow> py_join sep (p # ps) = p @ sep @ py_join sep ps"
  by (cases ps) auto

lemma split_acc_join: "py_join [sep] (split_acc sep cur t) = cur @ t"
  by (induction t arbitrary: cur) (auto simp: py_join_cons split_acc_nonempty)

lemma split_acc_pieces:
  "sep \<notin> set cur \<Longrightarrow> p \<in> set (split_acc sep cur t) \<Longrightarrow> sep \<notin> set p"
proof (induction t arbitrary: cur)
  case Nil
  then show ?case by simp
next
  case (Cons c t)
  show ?case
  proof (cases "c = sep")
    case True
    with Cons.prems have "p = cur \<or> p \<in> set (split_acc sep [] t)" by simp
    then show ?thesis
    proof
      assume "p = cur"
      with Cons.prems show ?thesis by simp
    next
      assume "p \<in> set (split_acc sep [] t)"
      with Cons.IH [of "[]"] show ?thesis by simp
    qed
  next
    case False
    with Cons.prems have "p \<in> set (split_acc sep (cur @ [c]) t)" by simp
    moreover from False Cons.prems have "sep \<notin> set (cur @ [c])" by auto
    ultimately show ?thesis using Cons.IH [of "cur @ [c]"] by blast
  qed
qed

lemma py_split_three_iff:
  "py_split sep t = [a, b, c] \<longleftrightarrow>
     t = a @ [sep] @ b @ [sep] @ c \<and> sep \<notin> set a \<and> sep \<notin> set b \<and> sep \<notin> set c"
proof
  assume s: "py_split sep t = [a, b, c]"
  from split_acc_join [of sep "[]" t] s have "t = a @ [sep] @ b @ [sep] @ c"
    by (simp add: py_split_def)
  moreover have "sep \<notin> set p" if "p \<in> set [a, b, c]" for p
    using split_acc_pieces [of sep "[]" p t] that s by (simp add: py_split_def)
  ultimately show "t = a @ [sep] @ b @ [sep] @ c \<and> sep \<notin> set a \<and> sep \<notin> set b \<and> sep \<notin> set c"
    by simp
next
  assume "t = a @ [sep] @ b @ [sep] @ c \<and> sep \<notin> set a \<and> sep \<notin> set b \<and> sep \<notin> set c"
  then show "py_split sep t = [a, b, c]" using py_split_three [of sep a b c] by simp
qed

lemma parse_fails_iff:
  "(\<exists>e. parse s = Inl e) \<longleftrightarrow>
     \<not> (\<exists>a b c. py_strip s = a @ ''.'' @ b @ ''.'' @ c
          \<and> CHR ''.'' \<notin> set a \<and> CHR ''.'' \<notin> set b \<and> CHR ''.'' \<notin> set c
          \<and> int_literal a \<and> int_literal b \<and> int_literal c)"
proof (cases "length (py_split CHR ''.'' (py_strip s)) = 3")
  case False
  then have "\<not> (\<exists>a b c. py_split CHR ''.'' (py_strip s) = [a, b, c])" by auto
  then have "\<not> (\<exists>a b c. py_strip s = a @ ''.'' @ b @ ''.'' @ c
          \<and> CHR ''.'' \<notin> set a \<and> CHR ''.'' \<notin> set b \<and> CHR ''.'' \<notin> set c)"
    by (simp add: py_split_three_iff)
  moreover from False have "\<exists>e. parse s = Inl e" by (simp add: parse_def Let_def)
  ultimately show ?thesis by blast
next
  case True
  then obtain a b c where abc: "py_split CHR ''.'' (py_strip s) = [a, b, c]"
    by (auto simp: length_Suc_conv numeral_3_eq_3)
  then have sh: "py_strip s = a @ ''.'' @ b @ ''.'' @ c"
    and nd: "CHR ''.'' \<notin> set a" "CHR ''.'' \<notin> set b" "CHR ''.'' \<notin> set c"
    by (simp_all add: py_split_three_iff)
  have uniq: "a' = a \<and> b' = b \<and> c' = c"
    if "py_strip s = a' @ ''.'' @ b' @ ''.'' @ c'" "CHR ''.'' \<notin> set a'" "CHR ''.'' \<notin> set b'"
      "CHR ''.'' \<notin> set c'" for a' b' c'
  proof -
    from that have "py_split CHR ''.'' (py_strip s) = [a', b', c']" by (simp add: py_split_three_iff)
    with abc show ?thesis by simp
  qed
  have "(\<exists>e. parse s = Inl e) \<longleftrightarrow> \<not> ((\<exists>i. py_int a = Inr i) \<and> (\<exists>i. py_int b = Inr i) \<and> (\<exists>i. py_int c = Inr i))"
    using abc by (auto simp: parse_def Let_def split: sum.splits)
  also have "\<dots> \<longleftrightarrow> \<not> (int_literal a \<and> int_literal b \<and> int_literal c)"
    by (simp add: py_int_literal)
  also have "\<dots> \<longleftrightarrow> \<not> (\<exists>a b c. py_strip s = a @ ''.'' @ b @ ''.'' @ c
          \<and> CHR ''.'' \<notin> set a \<and> CHR ''.'' \<notin> set b \<and> CHR ''.'' \<notin> set c
          \<and> int_literal a \<and> int_literal b \<and> int_literal c)"
    using sh nd uniq by blast
  finally show ?thesis .
qed


section \<open>Version declarations\<close>

lemma py_lower_char_dot: "py_lower_char c = CHR ''.'' \<Longrightarrow> c = CHR ''.''"
proof -
  assume a: "py_lower_char c = CHR ''.''"
  let ?n = "of_char c :: nat"
  show ?thesis
  proof (cases "(65 \<le> ?n \<and> ?n \<le> 90) \<or> (192 \<le> ?n \<and> ?n \<le> 222 \<and> ?n \<noteq> 215)")
    case True
    with a have "char_of (?n + 32) = CHR ''.''" by (simp add: py_lower_char_def)
    then have "of_char (char_of (?n + 32) :: char) = (of_char CHR ''.'' :: nat)" by simp
    then have "(?n + 32) mod 256 = 46" by simp
    with True show ?thesis by auto
  next
    case False
    with a show ?thesis by (simp add: py_lower_char_def)
  qed
qed

lemma piece_dot: "piece_ok (Lit ''.'') t \<Longrightarrow> t = ''.''"
proof -
  assume "piece_ok (Lit ''.'') t"
  moreover have "py_lower ''.'' = ''.''" by code_simp
  ultimately have "map py_lower_char t = ''.''" by (simp add: py_lower_def)
  then obtain c where "t = [c]" "py_lower_char c = CHR ''.''" by auto
  then show ?thesis by (simp add: py_lower_char_dot)
qed

text \<open>A dotted triple of digit strings parses to the values of the three strings, unless one
  of them has more digits than the digit limit.\<close>

lemma py_int_digits:
  assumes "list_all is_digit ds" and "ds \<noteq> []"
  shows "py_int ds =
    (if INT_MAX_STR_DIGITS < length ds then Inl (digit_limit_int (length ds))
     else Inr (int (dec_val 0 ds)))"
  using py_int_signed_digits [OF assms, of "[]"] by simp

lemma parse_digit_triple:
  assumes "list_all is_digit a" "a \<noteq> []" "list_all is_digit b" "b \<noteq> []"
    "list_all is_digit c" "c \<noteq> []"
  shows "parse (a @ ''.'' @ b @ ''.'' @ c) =
    (if INT_MAX_STR_DIGITS < length a then Inl (digit_limit_int (length a))
     else if INT_MAX_STR_DIGITS < length b then Inl (digit_limit_int (length b))
     else if INT_MAX_STR_DIGITS < length c then Inl (digit_limit_int (length c))
     else Inr \<lparr>major = int (dec_val 0 a), minor = int (dec_val 0 b), patch = int (dec_val 0 c)\<rparr>)"
proof -
  let ?s = "a @ ''.'' @ b @ ''.'' @ c"
  have nd: "CHR ''.'' \<notin> set a" "CHR ''.'' \<notin> set b" "CHR ''.'' \<notin> set c"
    using assms is_digit_not_special by (auto simp: list_all_iff)
  have "hd ?s = hd a" "last ?s = last c" using assms by simp_all
  moreover have "is_digit (hd a)" "is_digit (last c)" using assms by (simp_all add: list_all_iff)
  ultimately have "py_strip ?s = ?s"
    by (intro py_strip_id) (auto simp: is_digit_not_space)
  moreover have "py_split CHR ''.'' ?s = [a, b, c]"
    using py_split_three [OF nd] by simp
  ultimately show ?thesis
    by (simp add: parse_def py_int_digits [OF assms(1,2)] py_int_digits [OF assms(3,4)]
        py_int_digits [OF assms(5,6)])
qed

lemma version_group_shape:
  assumes "match_here (map fst VERSION_RE) s = Some (m_pieces m)"
  shows "\<exists>a b c. m_group VERSION_RE m 2 = a @ ''.'' @ b @ ''.'' @ c
    \<and> list_all is_digit a \<and> a \<noteq> [] \<and> list_all is_digit b \<and> b \<noteq> []
    \<and> list_all is_digit c \<and> c \<noteq> []"
proof -
  from match_here_sound [OF assms] have "list_all2 piece_ok (map fst VERSION_RE) (m_pieces m)" by simp
  then obtain p1 p2 a d1 b d2 c p8 p9 where ps: "m_pieces m = [p1, p2, a, d1, b, d2, c, p8, p9]"
    and ok: "piece_ok (Rep Digit 1) a" "piece_ok (Lit ''.'') d1" "piece_ok (Rep Digit 1) b"
      "piece_ok (Lit ''.'') d2" "piece_ok (Rep Digit 1) c"
    by (auto simp: VERSION_RE_def list_all2_Cons1)
  from ok have "d1 = ''.''" "d2 = ''.''" by (simp_all add: piece_dot)
  moreover have "m_group VERSION_RE m 2 = a @ d1 @ b @ d2 @ c"
    by (simp add: m_group_def VERSION_RE_def ps)
  moreover from ok have "list_all is_digit a" "a \<noteq> []" "list_all is_digit b" "b \<noteq> []"
    "list_all is_digit c" "c \<noteq> []" by (auto simp: list_all_iff)
  ultimately show ?thesis by auto
qed

lemma extract_versions_shape:
  assumes "v \<in> set (extract_versions text)"
  shows "\<exists>a b c. v = a @ ''.'' @ b @ ''.'' @ c
    \<and> list_all is_digit a \<and> a \<noteq> [] \<and> list_all is_digit b \<and> b \<noteq> []
    \<and> list_all is_digit c \<and> c \<noteq> []"
proof -
  from assms obtain m where m: "m \<in> set (finditer VERSION_RE text)" and v: "v = m_group VERSION_RE m 2"
    by (auto simp: extract_versions_def)
  from m have "match_here (map fst VERSION_RE) (drop (m_start m) text) = Some (m_pieces m)"
    using finditer_from_matches [of m VERSION_RE "text" 0] by (simp add: finditer_def)
  from version_group_shape [OF this] v show ?thesis by simp
qed

lemma parse_extracted:
  assumes "v \<in> set (extract_versions doc)" and "parse v = Inr sv"
  shows "non_negative sv"
proof -
  from extract_versions_shape [OF assms(1)] obtain a b c where "v = a @ ''.'' @ b @ ''.'' @ c"
    "list_all is_digit a" "a \<noteq> []" "list_all is_digit b" "b \<noteq> []" "list_all is_digit c" "c \<noteq> []"
    by blast
  with assms(2) show ?thesis
    using parse_digit_triple [of a b c] by (auto simp: non_negative_def split: if_splits)
qed

section \<open>Versions the script constructs\<close>

lemma bump_non_negative:
  assumes "non_negative v" and "bump v kind = Inr w"
  shows "non_negative w"
  using assms by (auto simp: bump_def non_negative_def Let_def split: if_splits)

lemma first_version_skip:
  assumes "\<forall>q \<in> set pre. lacks_version fs q"
  shows "first_version fs (pre @ rest) = first_version fs rest"
  using assms by (induction pre) (auto simp: lacks_version_def split: sum.splits)

lemma first_version_result:
  assumes "first_version fs ps = Inr sv"
  shows "non_negative sv"
  using assms
proof (induction ps)
  case Nil
  then show ?case by simp
next
  case (Cons p ps)
  show ?case
  proof (cases "read_text fs p")
    case (Inl e)
    with Cons.prems show ?thesis by simp
  next
    case (Inr t)
    show ?thesis
    proof (cases "extract_versions t")
      case Nil
      with Inr Cons show ?thesis by simp
    next
      case (Cons v vs)
      then have "v \<in> set (extract_versions t)" by simp
      moreover from Inr Cons Cons.prems have "parse v = Inr sv" by simp
      ultimately show ?thesis by (rule parse_extracted)
    qed
  qed
qed

text \<open>
  Claim C9, as the code has it. \<open>parse\<close> does not itself keep the components
  non-negative: it accepts a sign, as \<open>int\<close> does. The versions the script constructs are
  non-negative all the same: \<open>parse\<close> is only applied to a version declaration (a text
  the version pattern has matched), whose parse, when there is one, is non-negative; so
  is the base version; and a bump of a non-negative version is non-negative. \<open>parse\<close>
  fails exactly on the strings that, stripped, are not three pieces joined by two dots,
  each piece without a dot and an integer literal: optional white space, an optional
  sign, digits with single underscores between them, at most 4300 digits, optional white
  space.
\<close>

theorem constructed_versions_non_negative:
  "(v \<in> set (extract_versions doc) \<and> parse v = Inr sv \<longrightarrow> non_negative sv)
   \<and> (choose_base_version fs projects = Inr base \<longrightarrow> non_negative base)
   \<and> (non_negative base' \<and> bump base' kind = Inr newv \<longrightarrow> non_negative newv)
   \<and> ((\<exists>e. parse s = Inl e) \<longleftrightarrow>
        \<not> (\<exists>a b c. py_strip s = a @ ''.'' @ b @ ''.'' @ c
             \<and> CHR ''.'' \<notin> set a \<and> CHR ''.'' \<notin> set b \<and> CHR ''.'' \<notin> set c
             \<and> int_literal a \<and> int_literal b \<and> int_literal c))"
proof (intro conjI impI)
  assume "v \<in> set (extract_versions doc) \<and> parse v = Inr sv"
  then show "non_negative sv" using parse_extracted [of v doc sv] by simp
next
  assume "choose_base_version fs projects = Inr base"
  then show "non_negative base"
    using first_version_result [of fs "sort_key str_path projects" base]
    by (simp add: choose_base_version_def)
next
  assume "non_negative base' \<and> bump base' kind = Inr newv"
  then show "non_negative newv" using bump_non_negative [of base' kind newv] by simp
next
  show "(\<exists>e. parse s = Inl e) \<longleftrightarrow>
        \<not> (\<exists>a b c. py_strip s = a @ ''.'' @ b @ ''.'' @ c
             \<and> CHR ''.'' \<notin> set a \<and> CHR ''.'' \<notin> set b \<and> CHR ''.'' \<notin> set c
             \<and> int_literal a \<and> int_literal b \<and> int_literal c)"
    by (rule parse_fails_iff)
qed

theorem constructed_versions_non_negative_witness:
  "''1.2.3'' \<in> set (extract_versions ''<Version>1.2.3</Version>'')
   \<and> parse ''1.2.3'' = Inr \<lparr>major = 1, minor = 2, patch = 3\<rparr>
   \<and> choose_base_version (sample_fs ''<Version>1.2.3</Version>'' [] []) [sample_A]
       = Inr \<lparr>major = 1, minor = 2, patch = 3\<rparr>
   \<and> non_negative \<lparr>major = 1, minor = 2, patch = 3\<rparr>
   \<and> bump \<lparr>major = 1, minor = 2, patch = 3\<rparr> ''minor'' = Inr \<lparr>major = 1, minor = 3, patch = 0\<rparr>
   \<and> non_negative \<lparr>major = 1, minor = 3, patch = 0\<rparr>
   \<and> parse '' +1.2_0.3 '' = Inr \<lparr>major = 1, minor = 20, patch = 3\<rparr>
   \<and> (\<exists>a b c. py_strip '' +1.2_0.3 '' = a @ ''.'' @ b @ ''.'' @ c
         \<and> CHR ''.'' \<notin> set a \<and> CHR ''.'' \<notin> set b \<and> CHR ''.'' \<notin> set c
         \<and> int_literal a \<and> int_literal b \<and> int_literal c)"
proof -
  let ?v = "\<lparr>major = 1, minor = 2, patch = 3\<rparr>"
  let ?fs = "sample_fs ''<Version>1.2.3</Version>'' [] []"
  have h1: "''1.2.3'' \<in> set (extract_versions ''<Version>1.2.3</Version>'')" by code_simp
  have h2: "parse ''1.2.3'' = Inr ?v" by code_simp
  have h3: "choose_base_version ?fs [sample_A] = Inr ?v" by code_simp
  have h4: "bump ?v ''minor'' = Inr \<lparr>major = 1, minor = 3, patch = 0\<rparr>" by code_simp
  have h5: "parse '' +1.2_0.3 '' = Inr \<lparr>major = 1, minor = 20, patch = 3\<rparr>" by code_simp
  note t = constructed_versions_non_negative [of "''1.2.3''" "''<Version>1.2.3</Version>''" ?v
      ?fs "[sample_A]" ?v ?v "''minor''" "\<lparr>major = 1, minor = 3, patch = 0\<rparr>" "'' +1.2_0.3 ''"]
  from t h1 h2 have n1: "non_negative ?v" by blast
  from t h3 have "non_negative ?v" by blast
  from t n1 h4 have n2: "non_negative \<lparr>major = 1, minor = 3, patch = 0\<rparr>" by blast
  from h5 have "\<not> (\<exists>e. parse '' +1.2_0.3 '' = Inl e)" by simp
  with t have n3: "\<exists>a b c. py_strip '' +1.2_0.3 '' = a @ ''.'' @ b @ ''.'' @ c
         \<and> CHR ''.'' \<notin> set a \<and> CHR ''.'' \<notin> set b \<and> CHR ''.'' \<notin> set c
         \<and> int_literal a \<and> int_literal b \<and> int_literal c" by blast
  show ?thesis
    by (intro conjI h1 h2 h3 h4 h5 n1 n2 n3)
qed

theorem parse_negative_counterexample:
  "parse ''-1.2.3'' = Inr \<lparr>major = - 1, minor = 2, patch = 3\<rparr>
   \<and> \<not> non_negative \<lparr>major = - 1, minor = 2, patch = 3\<rparr>"
proof -
  have "parse ''-1.2.3'' = Inr \<lparr>major = - 1, minor = 2, patch = 3\<rparr>" by code_simp
  then show ?thesis by (simp add: non_negative_def)
qed

section \<open>Base version selection\<close>

lemma first_version_at:
  assumes "read_text fs p = Inr doc" and "extract_versions doc = v # vs"
  shows "first_version fs (p # post) = parse v"
  using assms by simp

text \<open>
  Claim C6. The base version is selected by scanning the manifests in the lexicographic
  order of their paths: it is the parse of the first version declaration of the first
  manifest that holds one (the manifests before it are read and hold none). If no
  manifest holds a version declaration the operation fails with the no-version-found
  error. The scan order is the list of the manifests sorted by their path strings.
\<close>

theorem choose_base_version_first:
  "(sort_key str_path projects = pre @ p # post \<and> (\<forall>q \<in> set pre. lacks_version fs q)
      \<and> read_text fs p = Inr doc \<and> extract_versions doc = v # vs
      \<longrightarrow> choose_base_version fs projects = parse v)
   \<and> ((\<forall>q \<in> set projects. lacks_version fs q)
      \<longrightarrow> choose_base_version fs projects = Inl no_version_found)
   \<and> sorted (map str_path (sort_key str_path projects))
   \<and> set (sort_key str_path projects) = set projects
   \<and> length (sort_key str_path projects) = length projects"
proof (intro conjI impI)
  assume a: "sort_key str_path projects = pre @ p # post \<and> (\<forall>q \<in> set pre. lacks_version fs q)
      \<and> read_text fs p = Inr doc \<and> extract_versions doc = v # vs"
  then have "choose_base_version fs projects = first_version fs (p # post)"
    by (simp add: choose_base_version_def first_version_skip)
  with a show "choose_base_version fs projects = parse v" by (simp add: first_version_at)
next
  assume "\<forall>q \<in> set projects. lacks_version fs q"
  then have "\<forall>q \<in> set (sort_key str_path projects). lacks_version fs q" by simp
  from first_version_skip [OF this, of "[]"]
  show "choose_base_version fs projects = Inl no_version_found"
    by (simp add: choose_base_version_def no_version_found_def)
qed simp_all

theorem choose_base_version_first_witness:
  "sort_key str_path [sample_F, sample_B, sample_A] = [sample_A] @ sample_B # [sample_F]
   \<and> lacks_version (sample_fs ''<Project/>'' ''<Version>2.0.1</Version><Version>9.9.9</Version>'' ''<Version>1.0.0</Version>'') sample_A
   \<and> choose_base_version (sample_fs ''<Project/>'' ''<Version>2.0.1</Version><Version>9.9.9</Version>'' ''<Version>1.0.0</Version>'')
        [sample_F, sample_B, sample_A] = Inr \<lparr>major = 2, minor = 0, patch = 1\<rparr>
   \<and> lacks_version (sample_fs ''<Project/>'' ''<Project/>'' ''<Project/>'') sample_A
   \<and> lacks_version (sample_fs ''<Project/>'' ''<Project/>'' ''<Project/>'') sample_B
   \<and> lacks_version (sample_fs ''<Project/>'' ''<Project/>'' ''<Project/>'') sample_F
   \<and> choose_base_version (sample_fs ''<Project/>'' ''<Project/>'' ''<Project/>'') [sample_F, sample_B, sample_A]
        = Inl no_version_found"
proof -
  let ?fs = "sample_fs ''<Project/>'' ''<Version>2.0.1</Version><Version>9.9.9</Version>'' ''<Version>1.0.0</Version>''"
  let ?none = "sample_fs ''<Project/>'' ''<Project/>'' ''<Project/>''"
  have s: "sort_key str_path [sample_F, sample_B, sample_A] = [sample_A] @ sample_B # [sample_F]"
    by code_simp
  have l: "lacks_version ?fs sample_A" by code_simp
  have r: "read_text ?fs sample_B = Inr ''<Version>2.0.1</Version><Version>9.9.9</Version>''" by code_simp
  have e: "extract_versions ''<Version>2.0.1</Version><Version>9.9.9</Version>'' = ''2.0.1'' # [''9.9.9'']"
    by code_simp
  have p: "parse ''2.0.1'' = Inr \<lparr>major = 2, minor = 0, patch = 1\<rparr>" by code_simp
  have n: "lacks_version ?none sample_A" "lacks_version ?none sample_B" "lacks_version ?none sample_F"
    by code_simp+
  from choose_base_version_first [of "[sample_F, sample_B, sample_A]" "[sample_A]" sample_B "[sample_F]" ?fs
      "''<Version>2.0.1</Version><Version>9.9.9</Version>''" "''2.0.1''" "[''9.9.9'']"] s l r e p
  have "choose_base_version ?fs [sample_F, sample_B, sample_A] = Inr \<lparr>major = 2, minor = 0, patch = 1\<rparr>"
    by simp
  moreover from choose_base_version_first [of "[sample_F, sample_B, sample_A]" "[]" sample_B "[]" ?none] n
  have "choose_base_version ?none [sample_F, sample_B, sample_A] = Inl no_version_found"
    by simp
  ultimately show ?thesis using s l n by simp
qed

section \<open>Versions that can be rendered\<close>

lemma digit_val_bound: "is_digit c \<Longrightarrow> digit_val c \<le> 9"
  by (auto simp: is_digit_def digit_val_def)

lemma dec_val_bound:
  "list_all is_digit ds \<Longrightarrow> dec_val acc ds < (acc + 1) * 10 ^ length ds"
proof (induction ds arbitrary: acc)
  case Nil
  then show ?case by (simp add: dec_val_def)
next
  case (Cons c ds)
  then have "dec_val (10 * acc + digit_val c) ds < (10 * acc + digit_val c + 1) * 10 ^ length ds"
    by simp
  also have "\<dots> \<le> (10 * acc + 10) * 10 ^ length ds"
    using digit_val_bound [of c] Cons.prems by (intro mult_right_mono) simp_all
  also have "\<dots> = (acc + 1) * 10 ^ length (c # ds)" by (simp add: algebra_simps)
  finally show ?case by (simp add: dec_val_def)
qed

lemma dec_val_renders:
  assumes "list_all is_digit ds" and "length ds \<le> INT_MAX_STR_DIGITS"
  shows "renders (int (dec_val 0 ds))"
proof -
  from dec_val_bound [OF assms(1), of 0] have "dec_val 0 ds < 10 ^ length ds" by simp
  also have "(10::nat) ^ length ds \<le> 10 ^ INT_MAX_STR_DIGITS"
    using assms(2) by (intro power_increasing) simp_all
  finally show ?thesis by (rule renders_nat)
qed

lemma parse_extracted_renders:
  assumes "v \<in> set (extract_versions doc)" and "parse v = Inr sv"
  shows "\<exists>t. str_SemVer sv = Inr t"
proof -
  from extract_versions_shape [OF assms(1)] obtain a b c where v: "v = a @ ''.'' @ b @ ''.'' @ c"
    and d: "list_all is_digit a" "a \<noteq> []" "list_all is_digit b" "b \<noteq> []" "list_all is_digit c" "c \<noteq> []"
    by blast
  from assms(2) parse_digit_triple [OF d] v
  have l: "length a \<le> INT_MAX_STR_DIGITS" "length b \<le> INT_MAX_STR_DIGITS" "length c \<le> INT_MAX_STR_DIGITS"
    and sv: "sv = \<lparr>major = int (dec_val 0 a), minor = int (dec_val 0 b), patch = int (dec_val 0 c)\<rparr>"
    by (auto split: if_splits)
  have "renders (major sv) \<and> renders (minor sv) \<and> renders (patch sv)"
    using dec_val_renders [OF d(1) l(1)] dec_val_renders [OF d(3) l(2)] dec_val_renders [OF d(5) l(3)]
    by (simp add: sv)
  then show ?thesis by (simp add: str_SemVer_total)
qed

lemma first_version_renders:
  assumes "first_version fs ps = Inr sv"
  shows "\<exists>t. str_SemVer sv = Inr t"
  using assms
proof (induction ps)
  case Nil
  then show ?case by simp
next
  case (Cons p ps)
  show ?case
  proof (cases "read_text fs p")
    case (Inl e)
    with Cons.prems show ?thesis by simp
  next
    case (Inr t)
    show ?thesis
    proof (cases "extract_versions t")
      case Nil
      with Inr Cons show ?thesis by simp
    next
      case (Cons v vs)
      then have "v \<in> set (extract_versions t)" by simp
      moreover from Inr Cons Cons.prems have "parse v = Inr sv" by simp
      ultimately show ?thesis by (rule parse_extracted_renders)
    qed
  qed
qed

section \<open>The rewrite of the manifests\<close>

lemma replace_version_count: "snd (replace_version t v) = length (extract_versions t)"
  by (simp add: replace_version_def subn_def extract_versions_def Let_def)

lemma write_text_no_exec:
  "execs (trace (snd (write_text p t s))) = execs (trace s)"
  by (simp add: write_text_def stored_simps execs_append split: option.splits prod.splits)

lemma rewrite_projects_no_exec:
  "execs (trace (snd (rewrite_projects root nv ps changed s))) = execs (trace s)"
proof (induction ps arbitrary: changed s)
  case Nil
  then show ?case by simp
next
  case (Cons p ps)
  have w: "execs (trace s') = execs (trace s)" if "write_text p t s = (r, s')" for t r s'
    using write_text_no_exec [of p t s] that by simp
  show ?case
    by (auto simp: Cons.IH emit_simps execs_append split: sum.splits prod.splits dest: w)
qed

text \<open>One turn of the loop on a manifest the rewrite gets through.\<close>

lemma rewrite_step:
  assumes rw: "rewritable (disk s) nv q" and below: "take (length root) q = root"
  shows "\<exists>s1 evs.
      rewrite_projects root nv (q # ps) changed s
        = rewrite_projects root nv ps (if differs (disk s) nv q then changed @ [q] else changed) s1
      \<and> fs_resolve (disk s1) = fs_resolve (disk s)
      \<and> fs_write_error (disk s1) = fs_write_error (disk s)
      \<and> fs_text (disk s1) = (if differs (disk s) nv q
            then (fs_text (disk s))(fs_resolve (disk s) q \<mapsto> rewritten (disk s) nv q)
            else fs_text (disk s))
      \<and> trace s1 = trace s @ evs \<and> execs evs = []
      \<and> (differs (disk s) nv q \<longrightarrow> WriteText q (rewritten (disk s) nv q) \<in> set evs)"
proof -
  from rw obtain old where rd: "read_text (disk s) q = Inr old" and ev: "extract_versions old \<noteq> []"
    by (auto simp: rewritable_def has_version_def split: sum.splits)
  obtain new n where rv: "replace_version old nv = (new, n)" by (cases "replace_version old nv")
  with replace_version_count [of old nv] have n: "n = length (extract_versions old)" by simp
  with ev have pos: "\<not> n \<le> 0" by simp
  from below obtain rel where rel: "relative_to q root = Inr rel" using relative_to_below by blast
  have rwn: "rewritten (disk s) nv q = new" by (simp add: rewritten_def rd rv)
  have df: "differs (disk s) nv q \<longleftrightarrow> new \<noteq> old" by (auto simp: differs_def rwn rd)
  show ?thesis
  proof (cases "new \<noteq> old")
    case True
    with rw df have we: "fs_write_error (disk s) q = None"
      and "renders (int (length (declarations (disk s) q)))"
      by (simp_all add: rewritable_def)
    then have "renders (int n)" by (simp add: declarations_def rd n)
    then obtain cs where cs: "str_int (int n) = Inr cs" by (simp add: str_int_def)
    let ?pr = "Print (''Updated: '' @ rel @ '' (replacements: '' @ cs @ '')'')"
    let ?s1 = "emit ?pr (stored q new s)"
    have wt: "write_text q new s = (Inr (), stored q new s)" using we by (simp add: write_text_def)
    have "rewrite_projects root nv (q # ps) changed s = rewrite_projects root nv ps (changed @ [q]) ?s1"
      using rd ev rv pos rel True wt cs by simp
    moreover have "trace ?s1 = trace s @ [WriteText q new, ?pr]"
      by (simp add: emit_simps stored_simps)
    ultimately show ?thesis using True df rwn
      by (intro exI [of _ ?s1] exI [of _ "[WriteText q new, ?pr]"])
        (simp add: emit_simps stored_simps)
  next
    case False
    let ?s1 = "emit (Print (''Unchanged: '' @ rel)) s"
    have "rewrite_projects root nv (q # ps) changed s = rewrite_projects root nv ps changed ?s1"
      using rd ev rv pos rel False by simp
    then show ?thesis using False df
      by (intro exI [of _ ?s1] exI [of _ "[Print (''Unchanged: '' @ rel)]"]) (simp add: emit_simps)
  qed
qed

lemma read_text_cong:
  assumes "fs_resolve fs' = fs_resolve fs" and "fs_text fs' (fs_resolve fs p) = fs_text fs (fs_resolve fs p)"
  shows "read_text fs' p = read_text fs p"
  using assms by (simp add: read_text_def)

text \<open>The loop up to the first manifest without a version declaration, when the
  manifests before it get through.\<close>

lemma rewrite_prefix:
  assumes "distinct (map (fs_resolve (disk s)) (pre @ [p]))"
    and "\<forall>q \<in> set pre. rewritable (disk s) nv q"
    and "lacks_version (disk s) p"
    and "\<forall>q \<in> set (pre @ [p]). take (length root) q = root"
  shows "\<exists>rel s' evs.
      rewrite_projects root nv (pre @ p # post) changed s
        = (Inl (RuntimeError (''Missing <Version> in: '' @ rel)), s')
      \<and> relative_to p root = Inr rel
      \<and> trace s' = trace s @ evs \<and> execs evs = []
      \<and> fs_resolve (disk s') = fs_resolve (disk s)
      \<and> (\<forall>k. k \<notin> fs_resolve (disk s) ` set pre \<longrightarrow> fs_text (disk s') k = fs_text (disk s) k)
      \<and> (\<forall>q \<in> set pre. differs (disk s) nv q \<longrightarrow>
            fs_text (disk s') (fs_resolve (disk s) q) = Some (rewritten (disk s) nv q)
            \<and> WriteText q (rewritten (disk s) nv q) \<in> set evs)"
  using assms
proof (induction pre arbitrary: s changed)
  case Nil
  from Nil.prems(3) obtain t where "read_text (disk s) p = Inr t" "extract_versions t = []"
    by (auto simp: lacks_version_def split: sum.splits)
  moreover from Nil.prems(4) obtain rel where "relative_to p root = Inr rel"
    using relative_to_below [of root p] by auto
  ultimately show ?case by simp
next
  case (Cons q pre)
  let ?r = "fs_resolve (disk s)"
  from Cons.prems(2) have hvq: "rewritable (disk s) nv q" by simp
  from Cons.prems(4) have bq: "take (length root) q = root" by simp
  from rewrite_step [OF hvq bq, of "pre @ p # post" changed]
  obtain s1 evs1 where step: "rewrite_projects root nv (q # pre @ p # post) changed s
        = rewrite_projects root nv (pre @ p # post) (if differs (disk s) nv q then changed @ [q] else changed) s1"
    and res1: "fs_resolve (disk s1) = ?r"
    and we1: "fs_write_error (disk s1) = fs_write_error (disk s)"
    and txt1: "fs_text (disk s1) = (if differs (disk s) nv q
            then (fs_text (disk s))(?r q \<mapsto> rewritten (disk s) nv q) else fs_text (disk s))"
    and tr1: "trace s1 = trace s @ evs1" and ex1: "execs evs1 = []"
    and wr1: "differs (disk s) nv q \<longrightarrow> WriteText q (rewritten (disk s) nv q) \<in> set evs1"
    by blast
  from Cons.prems(1) have "?r q \<notin> ?r ` set (pre @ [p])" by auto
  then have nq: "\<forall>q' \<in> set (pre @ [p]). ?r q' \<noteq> ?r q" by (metis imageI)
  have same: "read_text (disk s1) q' = read_text (disk s) q'" if "q' \<in> set (pre @ [p])" for q'
    using that nq res1 txt1 by (intro read_text_cong) auto
  have d1: "distinct (map (fs_resolve (disk s1)) (pre @ [p]))"
    using Cons.prems(1) res1 by simp
  have rw_same: "rewritten (disk s1) nv q' = rewritten (disk s) nv q'"
    and df_same: "differs (disk s1) nv q' = differs (disk s) nv q'"
    and dc_same: "declarations (disk s1) q' = declarations (disk s) q'"
    and hv_same: "has_version (disk s1) q' = has_version (disk s) q'" if "q' \<in> set pre" for q'
    using same [of q'] that by (simp_all add: rewritten_def differs_def declarations_def has_version_def)
  have hv1: "\<forall>q' \<in> set pre. rewritable (disk s1) nv q'"
    using Cons.prems(2) rw_same df_same dc_same hv_same we1 by (simp add: rewritable_def)
  have lv1: "lacks_version (disk s1) p"
    using Cons.prems(3) same by (simp add: lacks_version_def)
  have b1: "\<forall>q' \<in> set (pre @ [p]). take (length root) q' = root"
    using Cons.prems(4) by simp
  from Cons.IH [OF d1 hv1 lv1 b1, of "if differs (disk s) nv q then changed @ [q] else changed"]
  obtain rel s' evs where
    r: "rewrite_projects root nv (pre @ p # post) (if differs (disk s) nv q then changed @ [q] else changed) s1
        = (Inl (RuntimeError (''Missing <Version> in: '' @ rel)), s')"
    and rl: "relative_to p root = Inr rel"
    and tr: "trace s' = trace s1 @ evs" and ex: "execs evs = []"
    and res: "fs_resolve (disk s') = fs_resolve (disk s1)"
    and frame: "\<forall>k. k \<notin> fs_resolve (disk s1) ` set pre \<longrightarrow> fs_text (disk s') k = fs_text (disk s1) k"
    and wr: "\<forall>q' \<in> set pre. differs (disk s1) nv q' \<longrightarrow>
            fs_text (disk s') (fs_resolve (disk s1) q') = Some (rewritten (disk s1) nv q')
            \<and> WriteText q' (rewritten (disk s1) nv q') \<in> set evs"
    by blast
  have frame': "\<forall>k. k \<notin> ?r ` set (q # pre) \<longrightarrow> fs_text (disk s') k = fs_text (disk s) k"
    using frame res1 txt1 by auto
  have "?r q \<notin> ?r ` set pre" using Cons.prems(1) by auto
  with frame res1 have "fs_text (disk s') (?r q) = fs_text (disk s1) (?r q)" by simp
  with txt1 wr1 have wq: "differs (disk s) nv q \<longrightarrow>
      fs_text (disk s') (?r q) = Some (rewritten (disk s) nv q)
      \<and> WriteText q (rewritten (disk s) nv q) \<in> set (evs1 @ evs)" by simp
  have wrest: "\<forall>q' \<in> set pre. differs (disk s) nv q' \<longrightarrow>
      fs_text (disk s') (?r q') = Some (rewritten (disk s) nv q')
      \<and> WriteText q' (rewritten (disk s) nv q') \<in> set (evs1 @ evs)"
    using wr rw_same df_same res1 by auto
  show ?case
    using step r rl tr tr1 ex ex1 res res1 frame' wq wrest
    by (intro exI [of _ rel] exI [of _ s'] exI [of _ "evs1 @ evs"]) (simp add: execs_append)
qed

text \<open>The whole of \<open>bump_versions_in_projects\<close> in that situation.\<close>

lemma bump_versions_prefix:
  assumes cs: "fst (find_csproj_files root s) = pre @ p # post"
    and rw: "\<forall>q \<in> set pre. rewritable (disk s) nv q" and lv: "lacks_version (disk s) p"
    and cb: "choose_base_version (disk s) (pre @ p # post) = Inr base"
    and bv: "bump base bump_kind = Inr newv"
    and nv: "str_SemVer newv = Inr nv"
  shows "\<exists>rel s'.
      bump_versions_in_projects root bump_kind s = (Inl (RuntimeError (''Missing <Version> in: '' @ rel)), s')
      \<and> relative_to p root = Inr rel
      \<and> (\<forall>q \<in> set pre. differs (disk s) nv q \<longrightarrow>
            WriteText q (rewritten (disk s) nv q) \<in> set (trace s')
            \<and> fs_text (disk s') (fs_resolve (disk s) q) = Some (rewritten (disk s) nv q))"
proof -
  from cb obtain bs where bs: "str_SemVer base = Inr bs"
    using first_version_renders [of "disk s" "sort_key str_path (pre @ p # post)" base]
    by (auto simp: choose_base_version_def)
  define s2 where "s2 = emit (Print (''Version bump: '' @ bs @ '' -> '' @ nv))
    (snd (find_csproj_files root s))"
  have d: "disk s2 = disk s" by (simp add: s2_def emit_simps find_csproj_files_disk)
  have "distinct (map (fs_resolve (disk s)) (pre @ p # post))"
    using find_csproj_files_distinct [of s root] cs by simp
  then have dist: "distinct (map (fs_resolve (disk s2)) (pre @ [p]))" unfolding d by simp
  have below: "\<forall>q \<in> set (pre @ [p]). take (length root) q = root"
    using find_csproj_files_below [of _ root s] cs by simp
  have hv: "\<forall>q \<in> set pre. rewritable (disk s2) nv q" unfolding d by (rule rw)
  have lv2: "lacks_version (disk s2) p" unfolding d by (rule lv)
  from rewrite_prefix [OF dist hv lv2 below, of post "[]"]
  obtain rel s' evs where
    r: "rewrite_projects root nv (pre @ p # post) [] s2
        = (Inl (RuntimeError (''Missing <Version> in: '' @ rel)), s')"
    and rl: "relative_to p root = Inr rel"
    and tr: "trace s' = trace s2 @ evs"
    and wr: "\<forall>q \<in> set pre. differs (disk s2) nv q \<longrightarrow>
            fs_text (disk s') (fs_resolve (disk s2) q) = Some (rewritten (disk s2) nv q)
            \<and> WriteText q (rewritten (disk s2) nv q) \<in> set evs"
    by blast
  have "bump_versions_in_projects root bump_kind s
      = (Inl (RuntimeError (''Missing <Version> in: '' @ rel)), s')"
    using cs cb bv nv bs r unfolding s2_def
    by (simp add: bump_versions_in_projects_def case_prod_beta find_csproj_files_disk)
  moreover have "\<forall>q \<in> set pre. differs (disk s) nv q \<longrightarrow>
            WriteText q (rewritten (disk s) nv q) \<in> set (trace s')
            \<and> fs_text (disk s') (fs_resolve (disk s) q) = Some (rewritten (disk s) nv q)"
    using wr tr unfolding d by simp
  ultimately show ?thesis using rl by blast
qed

text \<open>
  Claim C10. The rewrite of the manifests is not atomic. When \<open>bump_versions_in_projects\<close>
  raises at a manifest that is not the first in discovery order, because that manifest
  holds no version declaration (the only way a rewrite can replace nothing), every
  earlier manifest whose content differed from the target version has been written with
  the new version, and the file system the failed run leaves still holds that new
  content. The run gets as far as that manifest when the new version can be rendered and
  the manifests before it get through the rewrite.
\<close>

theorem rewrite_not_atomic:
  assumes "fst (find_csproj_files root s) = pre @ p # post" and "pre \<noteq> []"
    and "\<forall>q \<in> set pre. rewritable (disk s) nv q" and "lacks_version (disk s) p"
    and "choose_base_version (disk s) (pre @ p # post) = Inr base"
    and "bump base bump_kind = Inr newv"
    and "str_SemVer newv = Inr nv"
  shows "\<exists>rel s'.
      bump_versions_in_projects root bump_kind s = (Inl (RuntimeError (''Missing <Version> in: '' @ rel)), s')
      \<and> relative_to p root = Inr rel
      \<and> (\<forall>q \<in> set pre. differs (disk s) nv q \<longrightarrow>
            WriteText q (rewritten (disk s) nv q) \<in> set (trace s')
            \<and> fs_text (disk s') (fs_resolve (disk s) q) = Some (rewritten (disk s) nv q))"
  using assms(1,3-7) by (rule bump_versions_prefix)

theorem rewrite_not_atomic_witness:
  "fst (find_csproj_files [''repo'']
      \<lparr>disk = sample_fs ''<Version>1.2.3</Version>'' ''<Version>1.3.0</Version>'' ''<Project/>'', trace = []\<rparr>)
     = [sample_A, sample_B] @ sample_F # []
   \<and> rewritable (sample_fs ''<Version>1.2.3</Version>'' ''<Version>1.3.0</Version>'' ''<Project/>'') ''1.3.0'' sample_A
   \<and> rewritable (sample_fs ''<Version>1.2.3</Version>'' ''<Version>1.3.0</Version>'' ''<Project/>'') ''1.3.0'' sample_B
   \<and> lacks_version (sample_fs ''<Version>1.2.3</Version>'' ''<Version>1.3.0</Version>'' ''<Project/>'') sample_F
   \<and> choose_base_version (sample_fs ''<Version>1.2.3</Version>'' ''<Version>1.3.0</Version>'' ''<Project/>'')
        ([sample_A, sample_B] @ sample_F # []) = Inr \<lparr>major = 1, minor = 2, patch = 3\<rparr>
   \<and> bump \<lparr>major = 1, minor = 2, patch = 3\<rparr> ''minor'' = Inr \<lparr>major = 1, minor = 3, patch = 0\<rparr>
   \<and> str_SemVer \<lparr>major = 1, minor = 3, patch = 0\<rparr> = Inr ''1.3.0''
   \<and> differs (sample_fs ''<Version>1.2.3</Version>'' ''<Version>1.3.0</Version>'' ''<Project/>'') ''1.3.0'' sample_A
   \<and> (\<exists>s'. bump_versions_in_projects [''repo''] ''minor''
          \<lparr>disk = sample_fs ''<Version>1.2.3</Version>'' ''<Version>1.3.0</Version>'' ''<Project/>'', trace = []\<rparr>
        = (Inl (RuntimeError ''Missing <Version> in: Source/CodeFix/F.csproj''), s')
      \<and> WriteText sample_A ''<Version>1.3.0</Version>'' \<in> set (trace s')
      \<and> fs_text (disk s') sample_A = Some ''<Version>1.3.0</Version>'')"
proof -
  let ?fs = "sample_fs ''<Version>1.2.3</Version>'' ''<Version>1.3.0</Version>'' ''<Project/>''"
  let ?s = "\<lparr>disk = ?fs, trace = []\<rparr>"
  let ?base = "\<lparr>major = 1, minor = 2, patch = 3\<rparr>"
  let ?newv = "\<lparr>major = 1, minor = 3, patch = 0\<rparr>"
  have f: "fst (find_csproj_files [''repo''] ?s) = [sample_A, sample_B] @ sample_F # []" by code_simp
  have hA: "rewritable ?fs ''1.3.0'' sample_A" by code_simp
  have hB: "rewritable ?fs ''1.3.0'' sample_B" by code_simp
  have lF: "lacks_version ?fs sample_F" by code_simp
  have c: "choose_base_version ?fs ([sample_A, sample_B] @ sample_F # []) = Inr ?base" by code_simp
  have b: "bump ?base ''minor'' = Inr ?newv" by code_simp
  have n: "str_SemVer ?newv = Inr ''1.3.0''" by code_simp
  have dA: "differs ?fs ''1.3.0'' sample_A" by code_simp
  have rA: "rewritten ?fs ''1.3.0'' sample_A = ''<Version>1.3.0</Version>''" by code_simp
  have rF: "relative_to sample_F [''repo''] = Inr ''Source/CodeFix/F.csproj''" by code_simp
  have res: "fs_resolve ?fs sample_A = sample_A" by (simp add: sample_fs_def)
  have pre: "\<forall>q \<in> set [sample_A, sample_B]. rewritable (disk ?s) ''1.3.0'' q" using hA hB by simp
  from rewrite_not_atomic [of "[''repo'']" ?s "[sample_A, sample_B]" sample_F "[]" "''1.3.0''" ?base "''minor''" ?newv]
    f pre lF c b n
  obtain rel s' where "bump_versions_in_projects [''repo''] ''minor'' ?s
      = (Inl (RuntimeError (''Missing <Version> in: '' @ rel)), s')"
    and "relative_to sample_F [''repo''] = Inr rel"
    and "differs ?fs ''1.3.0'' sample_A \<longrightarrow>
            WriteText sample_A (rewritten ?fs ''1.3.0'' sample_A) \<in> set (trace s')
            \<and> fs_text (disk s') (fs_resolve ?fs sample_A) = Some (rewritten ?fs ''1.3.0'' sample_A)"
    by auto
  then have "bump_versions_in_projects [''repo''] ''minor'' ?s
        = (Inl (RuntimeError ''Missing <Version> in: Source/CodeFix/F.csproj''), s')
      \<and> WriteText sample_A ''<Version>1.3.0</Version>'' \<in> set (trace s')
      \<and> fs_text (disk s') sample_A = Some ''<Version>1.3.0</Version>''"
    using dA rA rF res by simp
  then show ?thesis using f hA hB lF c b n dA by blast
qed

end
